theory Spec2Isabelle
  imports Complex_Main "HOL-Library.Word"
begin

section \<open>Numbers, bytes and image objects\<close>

text \<open>
  The pixel engine works on \<open>ImageData\<close> objects: a width, a height and a
  \<open>Uint8ClampedArray\<close> of RGBA bytes. A byte is an \<open>8 word\<close>. A JavaScript number is
  an IEEE 754 double: a finite one is the rational it denotes, and a value that may be
  \<open>NaN\<close> (or \<open>undefined\<close>, which turns into \<open>NaN\<close> in arithmetic) is a
  \<open>rat option\<close> with \<open>None\<close> for \<open>NaN\<close>.
\<close>

type_synonym byte = "8 word"
type_synonym jsnum = "rat option"

subsection \<open>Double precision arithmetic\<close>

text \<open>
  Every arithmetic operation of the code yields the exact result rounded to the nearest
  double, a tie going to the even significand. \<open>fl\<close> is that rounding. For \<open>\<bar>x\<bar> = a / b\<close>
  with exponent \<open>e\<close>, that is \<open>2 ^ e \<le> a / b < 2 ^ (e + 1)\<close>, the doubles around \<open>x\<close> are the
  multiples of \<open>2 ^ (e - 52)\<close>, and of \<open>2 ^ (- 1074)\<close> among the subnormal numbers. The
  infinities are not numbers of the model: the one division by zero of the code is
  treated where it occurs, and a result beyond the largest double stays the finite number
  \<open>fl\<close> gives.
\<close>

function bitLength :: "int \<Rightarrow> int" where
  "bitLength n = (if n \<le> 0 then 0 else bitLength (n div 2) + 1)"
  by pat_completeness auto
termination
  by (relation "measure nat") auto

declare bitLength.simps [simp del]

text \<open>The exponent of \<open>a / b\<close>, for positive \<open>a\<close> and \<open>b\<close>.\<close>

definition floorLog2 :: "int \<Rightarrow> int \<Rightarrow> int" where
  "floorLog2 a b =
     (let k = bitLength a - bitLength b
      in if b * 2 ^ nat k \<le> a * 2 ^ nat (- k) then k else k - 1)"

text \<open>The integer nearest to \<open>n / d\<close>, the even one of two, for positive \<open>d\<close>.\<close>

definition roundDiv :: "int \<Rightarrow> int \<Rightarrow> int" where
  "roundDiv n d =
     (let f = n div d; r = n mod d in
      if 2 * r < d then f
      else if d < 2 * r then f + 1
      else if even f then f else f + 1)"

text \<open>The number \<open>n * 2 ^ e\<close>.\<close>

definition dyadic :: "int \<Rightarrow> int \<Rightarrow> rat" where
  "dyadic n e = (if 0 \<le> e then of_int (n * 2 ^ nat e) else Fract n (2 ^ nat (- e)))"

definition fl :: "rat \<Rightarrow> rat" where
  "fl x =
     (if x = 0 then 0
      else
        let (a, b) = quotient_of \<bar>x\<bar>;
            s = 52 - max (floorLog2 a b) (- 1022);
            n = roundDiv (a * 2 ^ nat s) (b * 2 ^ nat (- s))
        in if x < 0 then - dyadic n (- s) else dyadic n (- s))"

text \<open>
  \<open>Math.sqrt\<close> is correctly rounded as well. The radicand is scaled by a power of four
  to \<open>t\<close> with \<open>2 ^ 106 \<le> t < 2 ^ 108\<close>, so that the integer root \<open>r\<close> of \<open>t\<close> has 54 bits: the
  significand is \<open>r div 2\<close>, rounded up when the last bit of \<open>r\<close> is set, unless the
  root is exactly the midpoint.
\<close>

function isqrt :: "int \<Rightarrow> int" where
  "isqrt n =
     (if n < 2 then n
      else (let r = 2 * isqrt (n div 4) in if (r + 1) * (r + 1) \<le> n then r + 1 else r))"
  by pat_completeness auto
termination
  by (relation "measure nat") auto

declare isqrt.simps [simp del]

definition flSqrt :: "rat \<Rightarrow> rat" where
  "flSqrt s =
     (if s \<le> 0 then 0
      else
        let (a, b) = quotient_of s;
            j = (107 - floorLog2 a b) div 2;
            n = a * 2 ^ nat (2 * j);
            d = b * 2 ^ nat (- (2 * j));
            t = n div d;
            r = isqrt t;
            exact = (n mod d = 0 \<and> r * r = t);
            m = r div 2;
            k = (if even r then m
                 else if exact then (if even m then m else m + 1)
                 else m + 1)
        in dyadic k (1 - j))"

subsection \<open>Image objects\<close>

record ImageData =
  width :: nat
  height :: nat
  data :: "byte list"

datatype error = InvalidBufferError

text \<open>
  Modelled from the spec: the constructor \<open>new ImageData(data, sw, sh)\<close>, which every
  operator calls on its result array, is a class of the platform and not part of the
  source. The spec's pixel buffer has the invariant \<open>bytes.length = width * height * 4\<close>,
  true on exit of every operator, and names the failure on a buffer without it
  \<open>InvalidBufferError\<close>: the constructor checks the invariant and fails with that error.
  The array is taken over as it is, not copied.
\<close>

definition newImageData :: "byte list \<Rightarrow> nat \<Rightarrow> nat \<Rightarrow> error + ImageData" where
  "newImageData d sw sh =
     (if length d \<noteq> sw * sh * 4 then Inl InvalidBufferError
      else Inr \<lparr>width = sw, height = sh, data = d\<rparr>)"

text \<open>The value of a byte as a number.\<close>

definition num :: "byte \<Rightarrow> rat" where
  "num b = of_nat (unat b)"

text \<open>
  Storing a number into a \<open>Uint8ClampedArray\<close>: clamp to \<open>[0, 255]\<close>, round to the
  nearest integer, ties to the even one; \<open>NaN\<close> is stored as 0.
\<close>

definition toUint8Clamp :: "rat \<Rightarrow> byte" where
  "toUint8Clamp v =
     (if v \<le> 0 then 0
      else if 255 \<le> v then 255
      else (let f = \<lfloor>v\<rfloor> in
            if of_int f + 1 / 2 < v then of_int (f + 1)
            else if v < of_int f + 1 / 2 then of_int f
            else if even f then of_int f else of_int (f + 1)))"

definition store :: "jsnum \<Rightarrow> byte" where
  "store v = (case v of None \<Rightarrow> 0 | Some r \<Rightarrow> toUint8Clamp r)"

text \<open>Reading \<open>data[i]\<close>: \<open>undefined\<close> outside the array.\<close>

definition rd :: "byte list \<Rightarrow> int \<Rightarrow> jsnum" where
  "rd d i = (if 0 \<le> i \<and> i < int (length d) then Some (num (d ! nat i)) else None)"

text \<open>The operations \<open>+\<close>, \<open>-\<close>, \<open>*\<close>, \<open>/\<close> (by a nonzero divisor) and \<open>Math.sqrt\<close> on
  numbers that may be \<open>NaN\<close>.\<close>

definition addN :: "jsnum \<Rightarrow> jsnum \<Rightarrow> jsnum" where
  "addN a b = (case a of None \<Rightarrow> None | Some x \<Rightarrow> (case b of None \<Rightarrow> None | Some y \<Rightarrow> Some (fl (x + y))))"

definition subN :: "jsnum \<Rightarrow> jsnum \<Rightarrow> jsnum" where
  "subN a b = (case a of None \<Rightarrow> None | Some x \<Rightarrow> (case b of None \<Rightarrow> None | Some y \<Rightarrow> Some (fl (x - y))))"

definition mulN :: "jsnum \<Rightarrow> jsnum \<Rightarrow> jsnum" where
  "mulN a b = (case a of None \<Rightarrow> None | Some x \<Rightarrow> (case b of None \<Rightarrow> None | Some y \<Rightarrow> Some (fl (x * y))))"

definition divN :: "jsnum \<Rightarrow> jsnum \<Rightarrow> jsnum" where
  "divN a b = (case a of None \<Rightarrow> None | Some x \<Rightarrow> (case b of None \<Rightarrow> None | Some y \<Rightarrow> Some (fl (x / y))))"

definition sqrtN :: "jsnum \<Rightarrow> jsnum" where
  "sqrtN a = (case a of None \<Rightarrow> None | Some s \<Rightarrow> if s < 0 then None else Some (flSqrt s))"

text \<open>\<open>Math.round\<close>: the nearest integer, ties upwards.\<close>

definition mathRound :: "rat \<Rightarrow> rat" where
  "mathRound v = of_int \<lfloor>v + 1 / 2\<rfloor>"

section \<open>Basic transformations\<close>

text \<open>\<open>clamp(value) = Math.min(255, Math.max(0, value))\<close>.\<close>

definition clamp :: "rat \<Rightarrow> rat" where
  "clamp v = min 255 (max 0 v)"

definition clampN :: "jsnum \<Rightarrow> jsnum" where
  "clampN v = map_option clamp v"

text \<open>
  One channel of \<open>applyContrast\<close>: \<open>clamp(factor * (d - 128) + 128)\<close> with
  \<open>factor = (259 * (contrast + 255)) / (255 * (259 - contrast))\<close>. At
  \<open>contrast = 259\<close> the divisor is zero and the factor is \<open>+Infinity\<close>: the product
  is \<open>-Infinity\<close>, \<open>NaN\<close> or \<open>+Infinity\<close> as \<open>d\<close> is below, at or above 128, stored as
  0, 0 and 255.
\<close>

definition contrastFactor :: "rat \<Rightarrow> rat" where
  "contrastFactor contrast = fl (fl (259 * fl (contrast + 255)) / fl (255 * fl (259 - contrast)))"

definition contrastByte :: "rat \<Rightarrow> byte \<Rightarrow> byte" where
  "contrastByte contrast d =
     (if contrast = 259 then (if 128 < unat d then 255 else 0)
      else toUint8Clamp (clamp (fl (fl (contrastFactor contrast * fl (num d - 128)) + 128))))"

text \<open>
  The loop \<open>for (i = 0; i < data.length; i += 4)\<close> writes the three colour bytes of
  each pixel; a write past the end of the array is ignored, as \<open>list_update\<close> does.
\<close>

function contrastLoop :: "rat \<Rightarrow> nat \<Rightarrow> byte list \<Rightarrow> byte list" where
  "contrastLoop c i d =
     (if i < length d
      then contrastLoop c (i + 4)
             (d[i := contrastByte c (d ! i),
                i + 1 := contrastByte c (d ! (i + 1)),
                i + 2 := contrastByte c (d ! (i + 2))])
      else d)"
  by pat_completeness auto
termination
  by (relation "measure (\<lambda>(c, i, d). length d - i)") auto

declare contrastLoop.simps [simp del]

definition applyContrast :: "ImageData \<Rightarrow> rat \<Rightarrow> error + ImageData" where
  "applyContrast imageData contrast =
     newImageData (contrastLoop contrast 0 (data imageData)) (width imageData) (height imageData)"

text \<open>\<open>applyBrightness\<close>: \<open>clamp(d * factor)\<close> with \<open>factor = brightness / 100\<close>.\<close>

definition brightnessByte :: "rat \<Rightarrow> byte \<Rightarrow> byte" where
  "brightnessByte brightness d = toUint8Clamp (clamp (fl (num d * fl (brightness / 100))))"

function brightnessLoop :: "rat \<Rightarrow> nat \<Rightarrow> byte list \<Rightarrow> byte list" where
  "brightnessLoop b i d =
     (if i < length d
      then brightnessLoop b (i + 4)
             (d[i := brightnessByte b (d ! i),
                i + 1 := brightnessByte b (d ! (i + 1)),
                i + 2 := brightnessByte b (d ! (i + 2))])
      else d)"
  by pat_completeness auto
termination
  by (relation "measure (\<lambda>(b, i, d). length d - i)") auto

declare brightnessLoop.simps [simp del]

definition applyBrightness :: "ImageData \<Rightarrow> rat \<Rightarrow> error + ImageData" where
  "applyBrightness imageData brightness =
     newImageData (brightnessLoop brightness 0 (data imageData)) (width imageData) (height imageData)"

text \<open>
  \<open>applySharpen\<close>: a 3x3 kernel over the interior pixels, read from a copy of the
  input and written to a second copy; \<open>amount === 0\<close> returns the input object itself.
\<close>

definition sharpenKernel :: "rat \<Rightarrow> rat list" where
  "sharpenKernel factor =
     [0, - factor, 0,
      - factor, fl (1 + fl (4 * factor)), - factor,
      0, - factor, 0]"

definition sharpenSum :: "byte list \<Rightarrow> rat list \<Rightarrow> nat \<Rightarrow> nat \<Rightarrow> nat \<Rightarrow> nat \<Rightarrow> jsnum" where
  "sharpenSum d kern w x y c =
     fold (\<lambda>ky. fold (\<lambda>kx s.
             addN s (mulN (rd d (((int y + ky) * int w + (int x + kx)) * 4 + int c))
                          (Some (kern ! nat ((ky + 1) * 3 + (kx + 1))))))
           [-1, 0, 1])
       [-1, 0, 1] (Some 0)"

definition sharpenPixel :: "byte list \<Rightarrow> rat list \<Rightarrow> nat \<Rightarrow> nat \<Rightarrow> nat \<Rightarrow> byte list \<Rightarrow> byte list" where
  "sharpenPixel d kern w y x resultData =
     fold (\<lambda>c res. res[(y * w + x) * 4 + c := store (clampN (sharpenSum d kern w x y c))])
       [0..<3] resultData"

definition applySharpen :: "ImageData \<Rightarrow> rat \<Rightarrow> error + ImageData" where
  "applySharpen imageData amount =
     (if amount = 0 then Inr imageData
      else
        let d = data imageData;
            w = width imageData;
            h = height imageData;
            kern = sharpenKernel (fl (amount / 10));
            resultData = fold (\<lambda>y. fold (sharpenPixel d kern w y) [1..<w - 1]) [1..<h - 1] d
        in newImageData resultData w h)"

text \<open>
  \<open>applyGrayscale\<close>: \<open>avg = r * 0.299 + g * 0.587 + b * 0.114\<close> stored into the three
  colour bytes. In a trailing incomplete pixel a missing byte makes \<open>avg\<close> \<open>NaN\<close>,
  stored as 0 in the bytes that exist.
\<close>

definition grayAvg :: "byte list \<Rightarrow> nat \<Rightarrow> jsnum" where
  "grayAvg d i =
     addN (addN (mulN (rd d (int i)) (Some (fl (299 / 1000))))
                (mulN (rd d (int i + 1)) (Some (fl (587 / 1000)))))
          (mulN (rd d (int i + 2)) (Some (fl (114 / 1000))))"

function grayscaleLoop :: "nat \<Rightarrow> byte list \<Rightarrow> byte list" where
  "grayscaleLoop i d =
     (if i < length d
      then (let avg = store (grayAvg d i)
            in grayscaleLoop (i + 4) (d[i := avg, i + 1 := avg, i + 2 := avg]))
      else d)"
  by pat_completeness auto
termination
  by (relation "measure (\<lambda>(i, d). length d - i)") auto

declare grayscaleLoop.simps [simp del]

definition applyGrayscale :: "ImageData \<Rightarrow> error + ImageData" where
  "applyGrayscale imageData =
     newImageData (grayscaleLoop 0 (data imageData)) (width imageData) (height imageData)"

text \<open>
  \<open>applyThreshold\<close>: grayscale first, then \<open>data[i] < threshold ? 0 : 255\<close> written in
  place into the grayscale image's array.
\<close>

function thresholdLoop :: "rat \<Rightarrow> nat \<Rightarrow> byte list \<Rightarrow> byte list" where
  "thresholdLoop t i d =
     (if i < length d
      then (let v = (if num (d ! i) < t then 0 else 255)
            in thresholdLoop t (i + 4) (d[i := v, i + 1 := v, i + 2 := v]))
      else d)"
  by pat_completeness auto
termination
  by (relation "measure (\<lambda>(t, i, d). length d - i)") auto

declare thresholdLoop.simps [simp del]

definition applyThreshold :: "ImageData \<Rightarrow> rat \<Rightarrow> error + ImageData" where
  "applyThreshold imageData threshold =
     (case applyGrayscale imageData of
        Inl e \<Rightarrow> Inl e
      | Inr grayscaleData \<Rightarrow>
          newImageData (thresholdLoop threshold 0 (data grayscaleData))
            (width imageData) (height imageData))"

section \<open>Edge detection\<close>

definition kernelX :: "rat list" where
  "kernelX = [-1, 0, 1,
              -2, 0, 2,
              -1, 0, 1]"

definition kernelY :: "rat list" where
  "kernelY = [-1, -2, -1,
               0,  0,  0,
               1,  2,  1]"

definition sobelSums :: "byte list \<Rightarrow> nat \<Rightarrow> nat \<Rightarrow> nat \<Rightarrow> jsnum \<times> jsnum" where
  "sobelSums d w x y =
     fold (\<lambda>ky. fold (\<lambda>kx (sumX, sumY).
             let kernelIndex = nat ((ky + 1) * 3 + (kx + 1));
                 dataIndex = ((int y + ky) * int w + (int x + kx)) * 4
             in (addN sumX (mulN (rd d dataIndex) (Some (kernelX ! kernelIndex))),
                 addN sumY (mulN (rd d dataIndex) (Some (kernelY ! kernelIndex)))))
           [-1, 0, 1])
       [-1, 0, 1] (Some 0, Some 0)"

definition sobelPixel :: "byte list \<Rightarrow> nat \<Rightarrow> nat \<Rightarrow> nat \<Rightarrow> byte list \<Rightarrow> byte list" where
  "sobelPixel d w y x resultData =
     (let pixelIndex = (y * w + x) * 4;
          (sumX, sumY) = sobelSums d w x y;
          magnitude = store (sqrtN (addN (mulN sumX sumX) (mulN sumY sumY)))
      in resultData[pixelIndex := magnitude,
                    pixelIndex + 1 := magnitude,
                    pixelIndex + 2 := magnitude,
                    pixelIndex + 3 := 255])"

definition borderPixel :: "nat \<Rightarrow> nat \<Rightarrow> nat \<Rightarrow> nat \<Rightarrow> byte list \<Rightarrow> byte list" where
  "borderPixel w h y x resultData =
     (if int x \<noteq> 0 \<and> int x \<noteq> int w - 1 \<and> int y \<noteq> 0 \<and> int y \<noteq> int h - 1 then resultData
      else (let pixelIndex = (y * w + x) * 4
            in resultData[pixelIndex := 0,
                          pixelIndex + 1 := 0,
                          pixelIndex + 2 := 0,
                          pixelIndex + 3 := 255]))"

definition sobelData :: "byte list \<Rightarrow> nat \<Rightarrow> nat \<Rightarrow> byte list" where
  "sobelData d w h =
     (let resultData = replicate (length d) 0;
          convolved = fold (\<lambda>y. fold (sobelPixel d w y) [1..<w - 1]) [1..<h - 1] resultData
      in fold (\<lambda>y. fold (borderPixel w h y) [0..<w]) [0..<h] convolved)"

definition applySobelEdgeDetection :: "ImageData \<Rightarrow> error + ImageData" where
  "applySobelEdgeDetection imageData =
     (case applyGrayscale imageData of
        Inl e \<Rightarrow> Inl e
      | Inr grayscaleData \<Rightarrow>
          newImageData (sobelData (data grayscaleData) (width imageData) (height imageData))
            (width imageData) (height imageData))"

text \<open>\<open>applyGaussianBlur\<close>: the 5x5 kernel, normalised by its sum, on the pixels at
  least two away from every edge.\<close>

definition gaussKernel :: "rat list" where
  "gaussKernel = [2, 4, 5, 4, 2,
                  4, 9, 12, 9, 4,
                  5, 12, 15, 12, 5,
                  4, 9, 12, 9, 4,
                  2, 4, 5, 4, 2]"

definition kernelSum :: rat where
  "kernelSum = fold (\<lambda>val sum. fl (sum + val)) gaussKernel 0"

definition normalizedKernel :: "rat list" where
  "normalizedKernel = map (\<lambda>val. fl (val / kernelSum)) gaussKernel"

definition blurSums :: "byte list \<Rightarrow> nat \<Rightarrow> nat \<Rightarrow> nat \<Rightarrow> jsnum \<times> jsnum \<times> jsnum" where
  "blurSums d w x y =
     fold (\<lambda>ky. fold (\<lambda>kx (sumR, sumG, sumB).
             let kernelIndex = nat ((ky + 2) * 5 + (kx + 2));
                 dataIndex = ((int y + ky) * int w + (int x + kx)) * 4;
                 k = Some (normalizedKernel ! kernelIndex)
             in (addN sumR (mulN (rd d dataIndex) k),
                 addN sumG (mulN (rd d (dataIndex + 1)) k),
                 addN sumB (mulN (rd d (dataIndex + 2)) k)))
           [-2, -1, 0, 1, 2])
       [-2, -1, 0, 1, 2] (Some 0, Some 0, Some 0)"

definition blurPixel :: "byte list \<Rightarrow> nat \<Rightarrow> nat \<Rightarrow> nat \<Rightarrow> byte list \<Rightarrow> byte list" where
  "blurPixel d w y x resultData =
     (let pixelIndex = (y * w + x) * 4;
          (sumR, sumG, sumB) = blurSums d w x y
      in resultData[pixelIndex := store (map_option mathRound sumR),
                    pixelIndex + 1 := store (map_option mathRound sumG),
                    pixelIndex + 2 := store (map_option mathRound sumB)])"

definition applyGaussianBlur :: "ImageData \<Rightarrow> error + ImageData" where
  "applyGaussianBlur imageData =
     (let d = data imageData;
          w = width imageData;
          h = height imageData;
          resultData = fold (\<lambda>y. fold (blurPixel d w y) [2..<w - 2]) [2..<h - 2] d
      in newImageData resultData w h)"

text \<open>
  \<open>applyCannyEdgeDetection\<close>: blur, Sobel, the double threshold on the red byte of the
  magnitude map, then one in-place hysteresis pass over the interior pixels.
\<close>

function doubleThreshold :: "rat \<Rightarrow> rat \<Rightarrow> byte list \<Rightarrow> nat \<Rightarrow> byte list \<Rightarrow> byte list" where
  "doubleThreshold lowThreshold highThreshold d i resultData =
     (if i < length d
      then (let magnitude = num (d ! i);
                v = (if magnitude > highThreshold then 255
                     else if magnitude > lowThreshold then 128
                     else 0)
            in doubleThreshold lowThreshold highThreshold d (i + 4)
                 (resultData[i := v, i + 1 := v, i + 2 := v, i + 3 := 255]))
      else resultData)"
  by pat_completeness auto
termination
  by (relation "measure (\<lambda>(lo, hi, d, i, r). length d - i)") auto

declare doubleThreshold.simps [simp del]

definition hasStrongNeighbor :: "byte list \<Rightarrow> nat \<Rightarrow> nat \<Rightarrow> nat \<Rightarrow> bool" where
  "hasStrongNeighbor resultData w y x =
     list_ex (\<lambda>ky. list_ex (\<lambda>kx.
         \<not> (ky = 0 \<and> kx = 0) \<and>
         rd resultData (((int y + ky) * int w + (int x + kx)) * 4) = Some 255)
       [-1, 0, 1]) [-1, 0, 1]"

definition hysteresisPixel :: "nat \<Rightarrow> nat \<Rightarrow> nat \<Rightarrow> byte list \<Rightarrow> byte list" where
  "hysteresisPixel w y x resultData =
     (let pixelIndex = (y * w + x) * 4 in
      if rd resultData (int pixelIndex) = Some 128
      then (if hasStrongNeighbor resultData w y x
            then resultData[pixelIndex := 255, pixelIndex + 1 := 255, pixelIndex + 2 := 255]
            else resultData[pixelIndex := 0, pixelIndex + 1 := 0, pixelIndex + 2 := 0])
      else resultData)"

definition hysteresis :: "nat \<Rightarrow> nat \<Rightarrow> byte list \<Rightarrow> byte list" where
  "hysteresis w h resultData = fold (\<lambda>y. fold (hysteresisPixel w y) [1..<w - 1]) [1..<h - 1] resultData"

text \<open>The result array as the double-threshold stage leaves it, before hysteresis.\<close>

definition cannyClassified :: "ImageData \<Rightarrow> rat \<Rightarrow> rat \<Rightarrow> error + byte list" where
  "cannyClassified imageData lowThreshold highThreshold =
     (case applyGaussianBlur imageData of
        Inl e \<Rightarrow> Inl e
      | Inr blurredData \<Rightarrow>
          (case applySobelEdgeDetection blurredData of
             Inl e \<Rightarrow> Inl e
           | Inr sobelImage \<Rightarrow>
               Inr (doubleThreshold lowThreshold highThreshold (data sobelImage) 0
                      (replicate (length (data sobelImage)) 0))))"

definition applyCannyEdgeDetection :: "ImageData \<Rightarrow> rat \<Rightarrow> rat \<Rightarrow> error + ImageData" where
  "applyCannyEdgeDetection imageData lowThreshold highThreshold =
     (case cannyClassified imageData lowThreshold highThreshold of
        Inl e \<Rightarrow> Inl e
      | Inr classified \<Rightarrow>
          newImageData (hysteresis (width imageData) (height imageData) classified)
            (width imageData) (height imageData))"

section \<open>Colour utilities\<close>

text \<open>The remainder operator \<open>a % b\<close>: the quotient is truncated towards zero.\<close>

definition jsMod :: "rat \<Rightarrow> rat \<Rightarrow> rat" where
  "jsMod a b = a - b * of_int (if a / b < 0 then \<lceil>a / b\<rceil> else \<lfloor>a / b\<rfloor>)"

definition hsvToRgb :: "rat \<Rightarrow> rat \<Rightarrow> rat \<Rightarrow> rat \<times> rat \<times> rat" where
  "hsvToRgb h0 s v =
     (let h = jsMod (fl (jsMod h0 360 + 360)) 360 in
      if s = 0
      then (mathRound (fl (v * 255)), mathRound (fl (v * 255)), mathRound (fl (v * 255)))
      else
        let i = \<lfloor>fl (h / 60)\<rfloor> mod 6;
            f = fl (fl (h / 60) - of_int \<lfloor>fl (h / 60)\<rfloor>);
            p = fl (v * fl (1 - s));
            q = fl (v * fl (1 - fl (f * s)));
            t = fl (v * fl (1 - fl (fl (1 - f) * s)));
            (r, g, b) =
              (if i = 0 then (v, t, p)
               else if i = 1 then (q, v, p)
               else if i = 2 then (p, v, t)
               else if i = 3 then (p, q, v)
               else if i = 4 then (t, p, v)
               else (v, p, q))
        in (mathRound (fl (r * 255)), mathRound (fl (g * 255)), mathRound (fl (b * 255))))"

definition rgbToHsv :: "rat \<Rightarrow> rat \<Rightarrow> rat \<Rightarrow> rat \<times> rat \<times> rat" where
  "rgbToHsv r0 g0 b0 =
     (let r = fl (r0 / 255);
          g = fl (g0 / 255);
          b = fl (b0 / 255);
          mx = max r (max g b);
          mn = min r (min g b);
          delta = fl (mx - mn);
          h = (if delta = 0 then 0
               else if mx = r then jsMod (fl (fl (g - b) / delta)) 6
               else if mx = g then fl (fl (fl (b - r) / delta) + 2)
               else fl (fl (fl (r - g) / delta) + 4));
          h1 = mathRound (fl (h * 60));
          h2 = (if h1 < 0 then fl (h1 + 360) else h1);
          s = (if mx = 0 then 0 else fl (delta / mx));
          v = mx
      in (h2, s, v))"

section \<open>Segmentation\<close>

text \<open>
  The segment dictionaries are keyed by the dense ids \<open>0, 1, ...\<close> and are lists here;
  \<open>segmentMap\<close> holds \<open>-1\<close> for a pixel no segment owns yet. A segment's colour entry is
  \<open>(r, g, b, count)\<close>. The explicit stack has its top at the head.
\<close>

type_synonym rgb = "jsnum \<times> jsnum \<times> jsnum"
type_synonym segColor = "jsnum \<times> jsnum \<times> jsnum \<times> nat"

record segState =
  segmentMap :: "int list"
  segmentSizes :: "nat list"
  segmentColors :: "segColor list"
  stack :: "(int \<times> int) list"
  currentSegment :: nat

definition directions :: "(int \<times> int) list" where
  "directions = [(-1, 0), (1, 0), (0, -1), (0, 1)]"

text \<open>\<open>segmentMap[i] === -1\<close>; an index outside the array reads \<open>undefined\<close>.\<close>

definition unassigned :: "int list \<Rightarrow> int \<Rightarrow> bool" where
  "unassigned sm i = (0 \<le> i \<and> i < int (length sm) \<and> sm ! nat i = -1)"

text \<open>The colour difference
  \<open>Math.sqrt(Math.pow(r1 - r2, 2) + Math.pow(g1 - g2, 2) + Math.pow(b1 - b2, 2))\<close>.\<close>

definition colorDiffOf :: "rgb \<Rightarrow> rgb \<Rightarrow> jsnum" where
  "colorDiffOf a b =
     (case (a, b) of ((r1, g1, b1), (r2, g2, b2)) \<Rightarrow>
        sqrtN (addN (addN (mulN (subN r1 r2) (subN r1 r2)) (mulN (subN g1 g2) (subN g1 g2)))
                    (mulN (subN b1 b2) (subN b1 b2))))"

text \<open>\<open>colorDiff <= tolerance\<close>, false when the difference is \<open>NaN\<close>.\<close>

definition withinTolerance :: "jsnum \<Rightarrow> rat \<Rightarrow> bool" where
  "withinTolerance colorDiff tolerance =
     (case colorDiff of None \<Rightarrow> False | Some c \<Rightarrow> c \<le> tolerance)"

definition floodNeighbor ::
  "byte list \<Rightarrow> nat \<Rightarrow> nat \<Rightarrow> rat \<Rightarrow> rgb \<Rightarrow> int \<times> int \<Rightarrow> int \<times> int \<Rightarrow> segState \<Rightarrow> segState" where
  "floodNeighbor d w h tolerance base pos dir s =
     (let nx = fst pos + fst dir;
          ny = snd pos + snd dir in
      if nx < 0 \<or> nx \<ge> int w \<or> ny < 0 \<or> ny \<ge> int h then s
      else
        let neighborIndex = ny * int w + nx in
        if \<not> unassigned (segmentMap s) neighborIndex then s
        else
          let nIndex = neighborIndex * 4;
              nr = rd d nIndex;
              ng = rd d (nIndex + 1);
              nb = rd d (nIndex + 2);
              cur = currentSegment s
          in if withinTolerance (colorDiffOf base (nr, ng, nb)) tolerance
             then s\<lparr>stack := (nx, ny) # stack s,
                    segmentMap := (segmentMap s)[nat neighborIndex := int cur],
                    segmentSizes := (segmentSizes s)[cur := segmentSizes s ! cur + 1],
                    segmentColors := (segmentColors s)[cur :=
                      (case segmentColors s ! cur of (r, g, b, count) \<Rightarrow>
                         (addN r nr, addN g ng, addN b nb, count + 1))]\<rparr>
             else s)"

definition floodMeasure :: "segState \<Rightarrow> nat" where
  "floodMeasure s = 2 * count_list (segmentMap s) (-1) + length (stack s)"

lemma count_list_update_unassigned:
  "i < length xs \<Longrightarrow> xs ! i = a \<Longrightarrow> b \<noteq> a \<Longrightarrow> Suc (count_list (xs[i := b]) a) = count_list xs a"
proof (induction xs arbitrary: i)
  case Nil
  then show ?case by simp
next
  case (Cons x xs)
  then show ?case by (cases i) auto
qed

lemma floodNeighbor_measure:
  "floodMeasure (floodNeighbor d w h tolerance base pos dir s) \<le> floodMeasure s"
proof -
  have "2 * count_list ((segmentMap s)[nat i := int c]) (-1) + Suc (length (stack s))
        \<le> 2 * count_list (segmentMap s) (-1) + length (stack s)"
    if "unassigned (segmentMap s) i" for i c
  proof -
    from that have "nat i < length (segmentMap s)" "segmentMap s ! nat i = -1"
      by (auto simp: unassigned_def)
    then have "Suc (count_list ((segmentMap s)[nat i := int c]) (-1)) = count_list (segmentMap s) (-1)"
      by (intro count_list_update_unassigned) auto
    then show ?thesis by arith
  qed
  then show ?thesis
    by (auto simp: floodNeighbor_def floodMeasure_def Let_def)
qed

lemma floodNeighbors_measure:
  "floodMeasure (fold (floodNeighbor d w h tolerance base pos) dirs s) \<le> floodMeasure s"
proof (induction dirs arbitrary: s)
  case Nil
  then show ?case by simp
next
  case (Cons dir dirs)
  have "floodMeasure (fold (floodNeighbor d w h tolerance base pos) dirs
          (floodNeighbor d w h tolerance base pos dir s))
        \<le> floodMeasure (floodNeighbor d w h tolerance base pos dir s)"
    by (rule Cons.IH)
  also have "\<dots> \<le> floodMeasure s"
    by (rule floodNeighbor_measure)
  finally show ?case by simp
qed

text \<open>The \<open>while (stack.length > 0)\<close> loop of \<open>floodFill\<close>.\<close>

function floodLoop :: "byte list \<Rightarrow> nat \<Rightarrow> nat \<Rightarrow> rat \<Rightarrow> rgb \<Rightarrow> segState \<Rightarrow> segState" where
  "floodLoop d w h tolerance base s =
     (case stack s of
        [] \<Rightarrow> s
      | pos # rest \<Rightarrow>
          floodLoop d w h tolerance base
            (fold (floodNeighbor d w h tolerance base pos) directions (s\<lparr>stack := rest\<rparr>)))"
  by pat_completeness auto
termination
proof (relation "measure (\<lambda>(d, w, h, tolerance, base, s). floodMeasure s)")
  show "wf (measure (\<lambda>(d, w, h, tolerance, base, s). floodMeasure s))"
    by simp
next
  fix d :: "byte list" and w h :: nat and tolerance :: rat and base :: rgb
    and s :: segState and pos rest
  assume st: "stack s = pos # rest"
  have "floodMeasure (fold (floodNeighbor d w h tolerance base pos) directions (s\<lparr>stack := rest\<rparr>))
        \<le> floodMeasure (s\<lparr>stack := rest\<rparr>)"
    by (rule floodNeighbors_measure)
  also have "\<dots> < floodMeasure s"
    using st by (simp add: floodMeasure_def)
  finally show "((d, w, h, tolerance, base,
                  fold (floodNeighbor d w h tolerance base pos) directions (s\<lparr>stack := rest\<rparr>)),
                 (d, w, h, tolerance, base, s))
                \<in> measure (\<lambda>(d, w, h, tolerance, base, s). floodMeasure s)"
    by simp
qed

declare floodLoop.simps [simp del]

text \<open>
  \<open>floodFill(x, y, baseR, baseG, baseB)\<close>: the new segment's entries are added under the
  key \<open>currentSegment\<close>, the next free id; after the loop the colour sums are replaced by
  the rounded means and the id counter moves on.
\<close>

definition floodFill :: "byte list \<Rightarrow> nat \<Rightarrow> nat \<Rightarrow> rat \<Rightarrow> nat \<Rightarrow> nat \<Rightarrow> rgb \<Rightarrow> segState \<Rightarrow> segState" where
  "floodFill d w h tolerance x y base s =
     (let cur = currentSegment s;
          s1 = s\<lparr>stack := (int x, int y) # stack s,
                 segmentMap := (segmentMap s)[y * w + x := int cur],
                 segmentSizes := segmentSizes s @ [1],
                 segmentColors := segmentColors s @
                   [(case base of (baseR, baseG, baseB) \<Rightarrow> (baseR, baseG, baseB, 1))]\<rparr>;
          s2 = floodLoop d w h tolerance base s1;
          segColor = (case segmentColors s2 ! cur of (r, g, b, count) \<Rightarrow>
                        (map_option (\<lambda>v. mathRound (fl (v / of_nat count))) r,
                         map_option (\<lambda>v. mathRound (fl (v / of_nat count))) g,
                         map_option (\<lambda>v. mathRound (fl (v / of_nat count))) b,
                         count))
      in s2\<lparr>segmentColors := (segmentColors s2)[cur := segColor],
             currentSegment := cur + 1\<rparr>)"

definition scanPixel :: "byte list \<Rightarrow> nat \<Rightarrow> nat \<Rightarrow> rat \<Rightarrow> nat \<Rightarrow> nat \<Rightarrow> segState \<Rightarrow> segState" where
  "scanPixel d w h tolerance y x s =
     (let index = y * w + x in
      if \<not> unassigned (segmentMap s) (int index) then s
      else
        let pixelIndex = int index * 4
        in floodFill d w h tolerance x y
             (rd d pixelIndex, rd d (pixelIndex + 1), rd d (pixelIndex + 2)) s)"

definition growSegments :: "byte list \<Rightarrow> nat \<Rightarrow> nat \<Rightarrow> rat \<Rightarrow> segState" where
  "growSegments d w h tolerance =
     fold (\<lambda>y. fold (scanPixel d w h tolerance y) [0..<w]) [0..<h]
       \<lparr>segmentMap = replicate (w * h) (-1), segmentSizes = [], segmentColors = [],
        stack = [], currentSegment = 0\<rparr>"

text \<open>A \<open>Set\<close> keeps its elements in insertion order.\<close>

definition setAdd :: "'a list \<Rightarrow> 'a \<Rightarrow> 'a list" where
  "setAdd xs v = (if v \<in> set xs then xs else xs @ [v])"

definition neighborsOf :: "int list \<Rightarrow> nat list \<Rightarrow> nat \<Rightarrow> nat \<Rightarrow> nat \<Rightarrow> nat list" where
  "neighborsOf sm mergeMap w h i =
     fold (\<lambda>y. fold (\<lambda>x neighbors.
         if sm ! (y * w + x) = int i
         then fold (\<lambda>dir neighbors.
                let nx = int x + fst dir;
                    ny = int y + snd dir in
                if nx < 0 \<or> nx \<ge> int w \<or> ny < 0 \<or> ny \<ge> int h then neighbors
                else
                  let neighborSegment = sm ! nat (ny * int w + nx) in
                  if neighborSegment \<noteq> int i \<and> neighborSegment \<noteq> -1
                  then setAdd neighbors (mergeMap ! nat neighborSegment)
                  else neighbors)
              directions neighbors
         else neighbors) [0..<w]) [0..<h] []"

datatype dist = Infinity | Finite rat

text \<open>\<open>colorDiff < minColorDiff\<close>, false when \<open>colorDiff\<close> is \<open>NaN\<close>.\<close>

definition closer :: "jsnum \<Rightarrow> dist \<Rightarrow> bool" where
  "closer colorDiff minColorDiff =
     (case colorDiff of
        None \<Rightarrow> False
      | Some c \<Rightarrow> (case minColorDiff of Infinity \<Rightarrow> True | Finite m \<Rightarrow> c < m))"

definition colorOf :: "segColor \<Rightarrow> rgb" where
  "colorOf c = (case c of (r, g, b, count) \<Rightarrow> (r, g, b))"

definition bestNeighborOf :: "segColor list \<Rightarrow> nat \<Rightarrow> nat list \<Rightarrow> int" where
  "bestNeighborOf colors i neighborArray =
     fst (fold (\<lambda>neighborSegment (bestNeighbor, minColorDiff).
            let colorDiff = colorDiffOf (colorOf (colors ! i)) (colorOf (colors ! neighborSegment))
            in if closer colorDiff minColorDiff
               then (int neighborSegment, (case colorDiff of Some c \<Rightarrow> Finite c | None \<Rightarrow> minColorDiff))
               else (bestNeighbor, minColorDiff))
          neighborArray (-1, Infinity))"

definition mergeSmall :: "segState \<Rightarrow> nat \<Rightarrow> nat \<Rightarrow> rat \<Rightarrow> nat \<Rightarrow> nat list \<Rightarrow> nat list" where
  "mergeSmall s w h minSize i mergeMap =
     (if of_nat (segmentSizes s ! i) < minSize
      then (let bestNeighbor =
                  bestNeighborOf (segmentColors s) i (neighborsOf (segmentMap s) mergeMap w h i)
            in if bestNeighbor \<noteq> -1 then mergeMap[i := nat bestNeighbor] else mergeMap)
      else mergeMap)"

text \<open>
  Flattening the merge chains: \<open>while (mergeMap[target] !== target) target = mergeMap[target]\<close>.
  The loop does not end when the chain runs into a cycle, so it is a partial function
  and \<open>None\<close> stands for a call that never returns.
\<close>

partial_function (option) chase :: "nat list \<Rightarrow> nat \<Rightarrow> nat option" where
  "chase mergeMap target =
     (if mergeMap ! target \<noteq> target then chase mergeMap (mergeMap ! target) else Some target)"

fun flatten :: "nat list \<Rightarrow> nat list \<Rightarrow> nat list option" where
  "flatten [] mergeMap = Some mergeMap"
| "flatten (i # rest) mergeMap =
     (case chase mergeMap i of
        None \<Rightarrow> None
      | Some target \<Rightarrow> flatten rest (mergeMap[i := target]))"

record segmentation =
  pixelSegments :: "int list"
  meanColors :: "segColor list"
  merged :: "nat list"
  segmentList :: "nat list"

text \<open>Growth, merge of the small segments, flattening and the list of the distinct
  representatives, for an image of the given size.\<close>

definition segments :: "byte list \<Rightarrow> nat \<Rightarrow> nat \<Rightarrow> rat \<Rightarrow> rat \<Rightarrow> segmentation option" where
  "segments d w h tolerance minSize =
     (let s = growSegments d w h tolerance;
          n = currentSegment s;
          mergeMap = fold (mergeSmall s w h minSize) [0..<n] [0..<n]
      in case flatten [0..<n] mergeMap of
           None \<Rightarrow> None
         | Some flat \<Rightarrow>
             Some \<lparr>pixelSegments = segmentMap s,
                   meanColors = segmentColors s,
                   merged = flat,
                   segmentList = fold (\<lambda>i uniqueSegments. setAdd uniqueSegments (flat ! i)) [0..<n] []\<rparr>)"

text \<open>
  \<open>assignColorsToSegments\<close>. \<open>rnd i\<close> is the value of the \<open>i\<close>-th call of
  \<open>Math.random()\<close>, used by the scheme \<open>preserveBrightness\<close> only.
\<close>

definition rgbOf :: "rat \<times> rat \<times> rat \<Rightarrow> rgb" where
  "rgbOf c = (case c of (r, g, b) \<Rightarrow> (Some r, Some g, Some b))"

definition schemeColor :: "string \<Rightarrow> (nat \<Rightarrow> rat) \<Rightarrow> segColor list \<Rightarrow> nat \<Rightarrow> nat \<Rightarrow> nat \<Rightarrow> rgb" where
  "schemeColor colorScheme rnd colors n i segment =
     (if colorScheme = ''rainbow'' then
        rgbOf (hsvToRgb (fl (fl (of_nat i / of_nat n) * 360)) (fl (8 / 10)) (fl (9 / 10)))
      else if colorScheme = ''pastel'' then
        rgbOf (hsvToRgb (fl (fl (of_nat i / of_nat n) * 360)) (fl (4 / 10)) (fl (95 / 100)))
      else if colorScheme = ''grayscale'' then
        (let v = fl (255 - mathRound (fl (fl (of_nat i / of_nat n) * 220))) in (Some v, Some v, Some v))
      else if colorScheme = ''highContrast'' then
        rgbOf (hsvToRgb (jsMod (fl (of_nat i * (1375 / 10))) 360) 1 1)
      else if colorScheme = ''preserveBrightness'' then
        (case colors ! segment of (r, g, b, count) \<Rightarrow>
           (case divN (addN (addN (mulN r (Some (fl (299 / 1000)))) (mulN g (Some (fl (587 / 1000)))))
                            (mulN b (Some (fl (114 / 1000))))) (Some 255) of
              None \<Rightarrow> (None, None, None)
            | Some brightness \<Rightarrow> rgbOf (hsvToRgb (fl (rnd i * 360)) (fl (8 / 10)) brightness)))
      else rgbOf (hsvToRgb (fl (fl (of_nat i / of_nat n) * 360)) (fl (8 / 10)) (fl (9 / 10))))"

definition assignColorsToSegments ::
  "(nat \<Rightarrow> rat) \<Rightarrow> nat list \<Rightarrow> segColor list \<Rightarrow> string \<Rightarrow> (nat \<rightharpoonup> rgb)" where
  "assignColorsToSegments rnd segs colors colorScheme =
     fold (\<lambda>i cs. cs(segs ! i \<mapsto> schemeColor colorScheme rnd colors (length segs) i (segs ! i)))
       [0..<length segs] Map.empty"

definition paintPixel :: "segmentation \<Rightarrow> (nat \<rightharpoonup> rgb) \<Rightarrow> nat \<Rightarrow> nat \<Rightarrow> nat \<Rightarrow> byte list \<Rightarrow> byte list" where
  "paintPixel sg colors w y x resultData =
     (let index = y * w + x;
          pixelSegment = pixelSegments sg ! index in
      if pixelSegment \<noteq> -1
      then (case colors (merged sg ! nat pixelSegment) of
              None \<Rightarrow> resultData
            | Some (r, g, b) \<Rightarrow>
                (let pixelIndex = index * 4
                 in resultData[pixelIndex := store r,
                               pixelIndex + 1 := store g,
                               pixelIndex + 2 := store b]))
      else resultData)"

definition applySegmentation ::
  "(nat \<Rightarrow> rat) \<Rightarrow> ImageData \<Rightarrow> rat \<Rightarrow> rat \<Rightarrow> string \<Rightarrow> (error + ImageData) option" where
  "applySegmentation rnd imageData tolerance minSize colorScheme =
     (let w = width imageData;
          h = height imageData;
          d = data imageData
      in case segments d w h tolerance minSize of
           None \<Rightarrow> None
         | Some sg \<Rightarrow>
             (let colors = assignColorsToSegments rnd (segmentList sg) (meanColors sg) colorScheme;
                  resultData = fold (\<lambda>y. fold (paintPixel sg colors w y) [0..<w]) [0..<h] d
              in Some (newImageData resultData w h)))"

section \<open>The pipeline's dispatch\<close>

record params =
  contrastValue :: rat
  brightnessValue :: rat
  sharpnessValue :: rat
  thresholdValue :: rat
  cannyLow :: rat
  cannyHigh :: rat
  segmentTolerance :: rat
  segmentMinSize :: rat
  colorScheme :: string

record transform =
  type :: string
  params :: params

text \<open>\<open>applyTransformation\<close>: the \<open>switch\<close> on the transform's type. The result is
  \<open>None\<close> when the operator never returns.\<close>

definition applyTransformation ::
  "(nat \<Rightarrow> rat) \<Rightarrow> ImageData \<Rightarrow> transform \<Rightarrow> (error + ImageData) option" where
  "applyTransformation rnd imageData t =
     (if type t = ''contrast'' then Some (applyContrast imageData (contrastValue (params t)))
      else if type t = ''brightness'' then Some (applyBrightness imageData (brightnessValue (params t)))
      else if type t = ''sharpening'' then Some (applySharpen imageData (sharpnessValue (params t)))
      else if type t = ''threshold'' then Some (applyThreshold imageData (thresholdValue (params t)))
      else if type t = ''grayscale'' then Some (applyGrayscale imageData)
      else if type t = ''edges'' then Some (applySobelEdgeDetection imageData)
      else if type t = ''canny'' then
        Some (applyCannyEdgeDetection imageData (cannyLow (params t)) (cannyHigh (params t)))
      else if type t = ''segmentation'' then
        applySegmentation rnd imageData (segmentTolerance (params t)) (segmentMinSize (params t))
          (colorScheme (params t))
      else Some (Inr imageData))"

text \<open>The parameter values a new transform starts with.\<close>

definition defaultParams :: params where
  "defaultParams =
     \<lparr>contrastValue = 100, brightnessValue = 100, sharpnessValue = 0, thresholdValue = 128,
      cannyLow = 50, cannyHigh = 150, segmentTolerance = 20, segmentMinSize = 100,
      colorScheme = ''rainbow''\<rparr>"

section \<open>A sample image\<close>

text \<open>A 3x3 image with nine different pixels, used to run the operators on.\<close>

definition sample3x3 :: ImageData where
  "sample3x3 = \<lparr>width = 3, height = 3,
       data = [10, 20, 30, 255,   200, 100, 50, 128,  0, 0, 250, 7,
               90, 80, 70, 60,    120, 130, 140, 99,  255, 255, 255, 0,
               5, 250, 5, 1,      33, 66, 99, 200,    64, 32, 16, 8]\<rparr>"

section \<open>Properties of the rounding\<close>

text \<open>
  Two facts about \<open>fl\<close> carry the proofs below: the rounding error is at most half a
  unit, hence at most \<open>\<bar>x\<bar> / 2 ^ 53\<close> apart from the subnormal range, and an integer
  below \<open>2 ^ 53\<close> in absolute value is a double.
\<close>

lemma bitLength_bounds:
  "0 < n \<Longrightarrow> 1 \<le> bitLength n \<and> 2 ^ nat (bitLength n - 1) \<le> n \<and> n < 2 ^ nat (bitLength n)"
proof (induction n rule: bitLength.induct)
  case (1 n)
  have b: "bitLength n = bitLength (n div 2) + 1"
    using "1.prems" by (subst bitLength.simps) simp
  show ?case
  proof (cases "n div 2 = 0")
    case True
    then have "n = 1" using "1.prems" by presburger
    moreover have "bitLength 0 = 0" by (subst bitLength.simps) simp
    ultimately show ?thesis using b by simp
  next
    case False
    then have p: "0 < n div 2" using "1.prems" by presburger
    define m where "m = bitLength (n div 2)"
    from "1.IH" p "1.prems" have IH: "1 \<le> m" "2 ^ nat (m - 1) \<le> n div 2" "n div 2 < 2 ^ nat m"
      by (simp_all add: m_def)
    have e: "nat m = Suc (nat (m - 1))" using IH(1) by simp
    have "(2::int) ^ nat m = 2 * 2 ^ nat (m - 1)" by (subst e) simp
    also have "\<dots> \<le> 2 * (n div 2)" using IH(2) by simp
    also have "\<dots> \<le> n" by presburger
    finally have lo: "(2::int) ^ nat m \<le> n" .
    have "n \<le> 2 * (n div 2) + 1" by presburger
    also have "\<dots> < 2 * 2 ^ nat m" using IH(3) by simp
    finally have hi: "n < 2 ^ Suc (nat m)" by simp
    have "nat (m + 1) = Suc (nat m)" using IH(1) by simp
    then show ?thesis using lo hi IH(1) by (simp add: b m_def [symmetric])
  qed
qed

lemma floorLog2_le:
  assumes "0 < a" "0 < b"
  shows "b * 2 ^ nat (floorLog2 a b) \<le> a * 2 ^ nat (- floorLog2 a b)"
proof -
  define la where "la = bitLength a"
  define lb where "lb = bitLength b"
  define k where "k = la - lb"
  from bitLength_bounds [OF assms(1)] have a: "1 \<le> la" "2 ^ nat (la - 1) \<le> a"
    by (simp_all add: la_def)
  from bitLength_bounds [OF assms(2)] have b: "1 \<le> lb" "b < 2 ^ nat lb"
    by (simp_all add: lb_def)
  show ?thesis
  proof (cases "b * 2 ^ nat k \<le> a * 2 ^ nat (- k)")
    case True
    then show ?thesis by (simp add: floorLog2_def Let_def la_def lb_def k_def)
  next
    case False
    then have e: "floorLog2 a b = k - 1"
      by (simp add: floorLog2_def Let_def la_def lb_def k_def)
    show ?thesis
    proof (cases "0 \<le> k - 1")
      case True
      have "b * 2 ^ nat (k - 1) \<le> 2 ^ nat lb * 2 ^ nat (k - 1)"
        using b(2) by (intro mult_right_mono) simp_all
      also have "\<dots> = 2 ^ (nat lb + nat (k - 1))" by (simp add: power_add)
      also have "nat lb + nat (k - 1) = nat (la - 1)" using True b(1) by (simp add: k_def)
      also have "(2::int) ^ nat (la - 1) \<le> a" by (rule a(2))
      finally show ?thesis using True by (simp add: e)
    next
      case False
      have "b \<le> 2 ^ nat lb" using b(2) by simp
      also have "nat lb = nat (la - 1) + nat (- (k - 1))" using False a(1) by (simp add: k_def)
      also have "(2::int) ^ (nat (la - 1) + nat (- (k - 1))) = 2 ^ nat (la - 1) * 2 ^ nat (- (k - 1))"
        by (simp add: power_add)
      also have "\<dots> \<le> a * 2 ^ nat (- (k - 1))"
        using a(2) by (intro mult_right_mono) simp_all
      finally show ?thesis using False by (simp add: e)
    qed
  qed
qed

lemma roundDiv_err:
  assumes "0 < d"
  shows "\<bar>of_int (roundDiv n d) - (of_int n / of_int d :: rat)\<bar> \<le> 1 / 2"
proof -
  define f where "f = n div d"
  define r where "r = n mod d"
  have n: "n = d * f + r" by (simp add: f_def r_def)
  have r: "0 \<le> r" "r < d" using assms by (simp_all add: r_def)
  have q: "(of_int n / of_int d :: rat) = of_int f + of_int r / of_int d"
    using assms by (simp add: n field_simps)
  have c: "roundDiv n d = f \<and> 2 * r \<le> d \<or> roundDiv n d = f + 1 \<and> d \<le> 2 * r"
    by (auto simp: roundDiv_def Let_def f_def r_def)
  have dpos: "(0::rat) < of_int d" using assms by simp
  from c show ?thesis
  proof (elim disjE conjE)
    assume e: "roundDiv n d = f" and "2 * r \<le> d"
    then have "(of_int (2 * r) :: rat) \<le> of_int d" by (simp only: of_int_le_iff)
    then have "(of_int r / of_int d :: rat) \<le> 1 / 2" using dpos by (simp add: field_simps)
    moreover have "(0::rat) \<le> of_int r / of_int d" using r(1) dpos by simp
    ultimately show ?thesis unfolding e q by simp
  next
    assume e: "roundDiv n d = f + 1" and "d \<le> 2 * r"
    then have "(of_int d :: rat) \<le> of_int (2 * r)" by (simp only: of_int_le_iff)
    then have "(1 / 2 :: rat) \<le> of_int r / of_int d" using dpos by (simp add: field_simps)
    moreover have "(of_int r / of_int d :: rat) < 1" using r(2) dpos by simp
    ultimately show ?thesis unfolding e q by simp
  qed
qed

lemma dyadic_eq: "dyadic n e = of_int n * 2 powi e"
proof (cases "0 \<le> e")
  case True
  then show ?thesis by (simp add: dyadic_def power_int_def)
next
  case False
  then show ?thesis
    by (simp add: dyadic_def power_int_def Fract_of_int_quotient power_inverse [symmetric] field_simps)
qed

lemma scaled_quotient:
  assumes "0 < b"
  shows "(of_int (a * 2 ^ nat s) / of_int (b * 2 ^ nat (- s)) :: rat) = (of_int a / of_int b) * 2 powi s"
proof (cases "0 \<le> s")
  case True
  then show ?thesis by (simp add: power_int_def)
next
  case False
  then show ?thesis by (simp add: power_int_def power_inverse [symmetric] field_simps)
qed

lemma quotient_of_abs:
  assumes "x \<noteq> 0" "quotient_of \<bar>x\<bar> = (a, b)"
  shows "0 < a" "0 < b" "\<bar>x\<bar> = of_int a / of_int b"
proof -
  show b: "0 < b" using assms(2) by (rule quotient_of_denom_pos)
  show e: "\<bar>x\<bar> = of_int a / of_int b" using assms(2) by (rule quotient_of_div)
  have "0 < \<bar>x\<bar>" using assms(1) by simp
  then have "(0::rat) < of_int a / of_int b" using e by simp
  then have "(0::rat) < of_int a" using b by (simp add: zero_less_divide_iff)
  then show "0 < a" by simp
qed

lemma floorLog2_powi:
  assumes "0 < a" "0 < b"
  shows "(2::rat) powi floorLog2 a b \<le> of_int a / of_int b"
proof -
  define e where "e = floorLog2 a b"
  have i: "b * 2 ^ nat e \<le> a * 2 ^ nat (- e)"
    unfolding e_def using assms by (rule floorLog2_le)
  then have r: "(of_int (b * 2 ^ nat e) :: rat) \<le> of_int (a * 2 ^ nat (- e))"
    by (simp only: of_int_le_iff)
  have bp: "(0::rat) < of_int b" using assms(2) by simp
  show ?thesis
  proof (cases "0 \<le> e")
    case True
    with r have "(of_int b :: rat) * 2 ^ nat e \<le> of_int a" by simp
    then have "(2::rat) ^ nat e \<le> of_int a / of_int b"
      using bp by (simp add: field_simps)
    then show ?thesis using True by (simp add: power_int_def e_def [symmetric])
  next
    case False
    with r have "(of_int b :: rat) \<le> of_int a * 2 ^ nat (- e)" by simp
    then have "(1::rat) / 2 ^ nat (- e) \<le> of_int a / of_int b"
      using bp by (simp add: field_simps)
    then show ?thesis using False
      by (simp add: power_int_def e_def [symmetric] power_inverse [symmetric] field_simps)
  qed
qed

text \<open>The result of \<open>fl\<close> is within half a unit of the argument.\<close>

lemma fl_half_unit:
  assumes "x \<noteq> 0" and q: "quotient_of \<bar>x\<bar> = (a, b)"
    and s: "s = 52 - max (floorLog2 a b) (- 1022)"
  shows "\<bar>fl x - x\<bar> \<le> 2 powi (- s) / 2"
proof -
  note ab = quotient_of_abs [OF assms(1) q]
  define N where "N = a * 2 ^ nat s"
  define D where "D = b * 2 ^ nat (- s)"
  define n where "n = roundDiv N D"
  have D: "0 < D" using ab(2) by (simp add: D_def)
  have f: "fl x = (if x < 0 then - dyadic n (- s) else dyadic n (- s))"
    using assms(1) by (simp add: fl_def q Let_def s N_def D_def n_def)
  have f': "fl x = sgn x * (of_int n * 2 powi (- s))"
    unfolding f dyadic_eq using assms(1) by (simp add: sgn_if)
  have nd: "of_int N / of_int D = \<bar>x\<bar> * 2 powi s"
    unfolding N_def D_def scaled_quotient [OF ab(2)] ab(3) ..
  have err: "\<bar>of_int n - \<bar>x\<bar> * 2 powi s\<bar> \<le> 1 / 2"
    using roundDiv_err [OF D, of N] by (simp add: n_def nd)
  have p: "(0::rat) < 2 powi (- s)" by simp
  have pp: "(2::rat) powi s * 2 powi (- s) = 1"
    by (simp add: power_int_minus)
  have "(of_int n - \<bar>x\<bar> * 2 powi s) * 2 powi (- s)
      = of_int n * 2 powi (- s) - \<bar>x\<bar> * (2 powi s * 2 powi (- s))"
    by (simp only: algebra_simps)
  then have "of_int n * 2 powi (- s) - \<bar>x\<bar> = (of_int n - \<bar>x\<bar> * 2 powi s) * 2 powi (- s)"
    by (simp only: pp mult_1_right)
  then have "\<bar>of_int n * 2 powi (- s) - \<bar>x\<bar>\<bar> = \<bar>of_int n - \<bar>x\<bar> * 2 powi s\<bar> * 2 powi (- s)"
    using p by (simp only: abs_mult abs_of_pos)
  also have "\<dots> \<le> 1 / 2 * 2 powi (- s)"
    using err p by (intro mult_right_mono) simp_all
  finally have h: "\<bar>of_int n * 2 powi (- s) - \<bar>x\<bar>\<bar> \<le> 2 powi (- s) / 2" by simp
  have "fl x - x = sgn x * (of_int n * 2 powi (- s) - \<bar>x\<bar>)"
    unfolding f' by (simp add: algebra_simps sgn_if)
  then have "\<bar>fl x - x\<bar> = \<bar>of_int n * 2 powi (- s) - \<bar>x\<bar>\<bar>"
    using assms(1) by (simp add: abs_mult abs_sgn_eq)
  then show ?thesis using h by simp
qed

lemma fl_err: "\<bar>fl x - x\<bar> \<le> \<bar>x\<bar> / 2 ^ 53 + 1 / 2 ^ 61"
proof (cases "x = 0")
  case True
  then show ?thesis by (simp add: fl_def)
next
  case False
  obtain a b where q: "quotient_of \<bar>x\<bar> = (a, b)" by (cases "quotient_of \<bar>x\<bar>")
  define s where "s = 52 - max (floorLog2 a b) (- 1022)"
  note ab = quotient_of_abs [OF False q]
  have 1: "\<bar>fl x - x\<bar> \<le> 2 powi (- s) / 2"
    using False q s_def by (rule fl_half_unit)
  have le: "(2::rat) powi floorLog2 a b \<le> \<bar>x\<bar>"
    unfolding ab(3) using ab(1,2) by (rule floorLog2_powi)
  have "(2::rat) powi (- s) \<le> \<bar>x\<bar> / 2 ^ 52 + 1 / 2 ^ 60"
  proof (cases "- 1022 \<le> floorLog2 a b")
    case True
    define c :: nat where "c = 52"
    from True have "- s = floorLog2 a b - int c" by (simp add: s_def c_def)
    moreover have "(2::rat) powi (floorLog2 a b - int c) = 2 powi floorLog2 a b / 2 powi int c"
      by (rule power_int_diff) simp
    ultimately have "(2::rat) powi (- s) = 2 powi floorLog2 a b / 2 powi int c"
      by (simp only:)
    also have "\<dots> = 2 powi floorLog2 a b / 2 ^ 52" by (simp only: power_int_of_nat c_def)
    also have "\<dots> \<le> \<bar>x\<bar> / 2 ^ 52" using le by (intro divide_right_mono) simp_all
    finally show ?thesis by simp
  next
    case False
    define c :: nat where "c = 1074"
    from False have "- s = - int c" by (simp add: s_def c_def)
    then have "(2::rat) powi (- s) = inverse (2 powi int c)"
      by (simp only: power_int_minus)
    also have "\<dots> = 1 / 2 ^ 1074"
      by (simp only: power_int_of_nat inverse_eq_divide c_def)
    also have "\<dots> \<le> 1 / 2 ^ 60"
    proof -
      have "(2::rat) ^ 60 \<le> 2 ^ 1074" by (rule power_increasing) simp_all
      then show ?thesis by (intro divide_left_mono) simp_all
    qed
    finally show ?thesis by simp
  qed
  then have "(2::rat) powi (- s) / 2 \<le> (\<bar>x\<bar> / 2 ^ 52 + 1 / 2 ^ 60) / 2"
    by (intro divide_right_mono) simp_all
  also have "\<dots> = \<bar>x\<bar> / 2 ^ 53 + 1 / 2 ^ 61" by simp
  finally show ?thesis using 1 by simp
qed

lemma fl_int:
  assumes "\<bar>n\<bar> < 2 ^ 53"
  shows "fl (of_int n) = of_int n"
proof (cases "n = 0")
  case True
  then show ?thesis by (simp add: fl_def)
next
  case False
  define a where "a = \<bar>n\<bar>"
  have a: "0 < a" "a < 2 ^ 53" using False assms by (simp_all add: a_def)
  have q: "quotient_of \<bar>of_int n :: rat\<bar> = (a, 1)"
    unfolding a_def of_int_abs [symmetric] by (rule quotient_of_rat_of_int)
  define e where "e = floorLog2 a 1"
  have i: "1 * 2 ^ nat e \<le> a * 2 ^ nat (- e)"
    unfolding e_def using a(1) by (intro floorLog2_le) simp_all
  have e: "e \<le> 52"
  proof (rule ccontr)
    assume "\<not> e \<le> 52"
    then have g: "53 \<le> nat e" "nat (- e) = 0" by simp_all
    have "(2::int) ^ 53 \<le> 2 ^ nat e" using g(1) by (intro power_increasing) simp_all
    also have "\<dots> \<le> a" using i g(2) by simp
    finally show False using a(2) by simp
  qed
  define s where "s = 52 - max e (- 1022)"
  have s: "0 \<le> s" using e by (simp add: s_def)
  have r: "roundDiv (a * 2 ^ nat s) (1 * 2 ^ nat (- s)) = a * 2 ^ nat s"
    using s by (simp add: roundDiv_def)
  have "dyadic (a * 2 ^ nat s) (- s) = of_int (a * 2 ^ nat s) * inverse (2 powi s)"
    unfolding dyadic_eq by (simp only: power_int_minus)
  also have "\<dots> = of_int a * (2 ^ nat s * inverse (2 ^ nat s))"
    using s by (simp add: power_int_def)
  also have "\<dots> = of_int a" by simp
  finally have d: "dyadic (a * 2 ^ nat s) (- s) = of_int a" .
  have "fl (of_int n) = (if n < 0 then - of_int a else of_int a)"
    using False
    by (simp add: fl_def q Let_def e_def [symmetric] s_def [symmetric] r d del: mult_1 of_int_abs)
  then show ?thesis by (simp add: a_def)
qed

lemma fl_0: "fl 0 = 0"
  by (simp add: fl_def)

lemma fl_close:
  assumes "\<bar>x\<bar> \<le> 1024"
  shows "\<bar>fl x - x\<bar> \<le> 1 / 2 ^ 42"
proof -
  have "\<bar>fl x - x\<bar> \<le> \<bar>x\<bar> / 2 ^ 53 + 1 / 2 ^ 61" by (rule fl_err)
  also have "\<dots> \<le> 1024 / 2 ^ 53 + 1 / 2 ^ 61"
    using assms by (intro add_right_mono divide_right_mono) simp_all
  also have "\<dots> \<le> 1 / 2 ^ 42" by simp
  finally show ?thesis .
qed

lemma toUint8Clamp_near:
  assumes "n \<le> 255" and "\<bar>x - of_nat n\<bar> < 1 / 2"
  shows "toUint8Clamp x = of_nat n"
proof -
  define f where "f = \<lfloor>x\<rfloor>"
  have lo: "of_nat n - 1 / 2 < x" and hi: "x < of_nat n + 1 / 2"
    using assms(2) by linarith+
  have "of_int (int n - 1) \<le> x" using lo by simp
  then have f1: "int n - 1 \<le> f" unfolding f_def by (simp only: le_floor_iff)
  have "x < of_int (int n + 1)" using hi by simp
  then have "f < int n + 1" unfolding f_def by (simp only: floor_less_iff)
  with f1 consider "f = int n - 1" | "f = int n" by linarith
  then show ?thesis
  proof cases
    case 1
    show ?thesis
    proof (cases "n = 0")
      case True
      then have "x < 0" using 1 floor_less_iff [of x 0] by (simp add: f_def)
      then show ?thesis using True by (simp add: toUint8Clamp_def)
    next
      case False
      then have "\<not> x \<le> 0" using lo by auto
      moreover have "\<not> 255 \<le> x"
      proof
        assume "255 \<le> x"
        then have "255 \<le> f" unfolding f_def by (simp add: le_floor_iff)
        with 1 assms(1) show False by simp
      qed
      moreover have "of_int f + 1 / 2 < x" using lo 1 by simp
      moreover have "(of_int (f + 1) :: byte) = of_nat n" using 1 by simp
      ultimately show ?thesis by (simp add: toUint8Clamp_def Let_def f_def [symmetric])
    qed
  next
    case 2
    have fx: "of_int f \<le> x" unfolding f_def by simp
    show ?thesis
    proof (cases "x \<le> 0")
      case True
      with fx 2 have "n = 0" by simp
      then show ?thesis using True by (simp add: toUint8Clamp_def)
    next
      case False
      show ?thesis
      proof (cases "255 \<le> x")
        case True
        then have "255 \<le> f" unfolding f_def by (simp add: le_floor_iff)
        with 2 assms(1) have "n = 255" by simp
        then show ?thesis using True False by (simp add: toUint8Clamp_def)
      next
        case F: False
        have "\<not> of_int f + 1 / 2 < x" "x < of_int f + 1 / 2" using hi 2 by simp_all
        moreover have "(of_int f :: byte) = of_nat n" using 2 by simp
        ultimately show ?thesis using False F
          by (simp add: toUint8Clamp_def Let_def f_def [symmetric])
      qed
    qed
  qed
qed

lemma mul_close:
  assumes n: "0 \<le> n" "n \<le> 255" and c: "\<bar>c - r\<bar> \<le> 1 / 2 ^ 42" and r: "0 \<le> r" "r \<le> 1"
  shows "\<bar>fl (n * c) - n * r\<bar> \<le> 1 / 2 ^ 33"
proof -
  have "\<bar>n * c - n * r\<bar> = n * \<bar>c - r\<bar>"
    using n(1) by (simp add: abs_mult right_diff_distrib [symmetric])
  also have "\<dots> \<le> 255 * (1 / 2 ^ 42)"
    using n c by (intro mult_mono) simp_all
  finally have d: "\<bar>n * c - n * r\<bar> \<le> 255 / 2 ^ 42" by simp
  have "n * r \<le> 255 * 1" using n r by (intro mult_mono) simp_all
  moreover have "0 \<le> n * r" using n r by simp
  moreover have "(255 :: rat) / 2 ^ 42 \<le> 1" by simp
  ultimately have "\<bar>n * c\<bar> \<le> 1024" using d by linarith
  then have "\<bar>fl (n * c) - n * c\<bar> \<le> 1 / 2 ^ 42" by (rule fl_close)
  with d have "\<bar>fl (n * c) - n * r\<bar> \<le> 1 / 2 ^ 42 + 255 / 2 ^ 42" by (simp only: abs_le_iff) linarith
  then show ?thesis by simp
qed

lemma add_close:
  assumes "\<bar>a - A\<bar> \<le> d" "\<bar>b - B\<bar> \<le> e" "\<bar>A + B\<bar> \<le> 512" "d \<le> 1" "e \<le> 1"
  shows "\<bar>fl (a + b) - (A + B)\<bar> \<le> d + e + 1 / 2 ^ 42"
proof -
  have "\<bar>a + b\<bar> \<le> 1024" using assms by linarith
  then have "\<bar>fl (a + b) - (a + b)\<bar> \<le> 1 / 2 ^ 42" by (rule fl_close)
  with assms(1,2) show ?thesis by linarith
qed

lemma num_bounds: "0 \<le> num v" "num v \<le> 255"
proof -
  have "unat v < 256" using unsigned_less [of v, where ?'a = nat] by simp
  then have "unat v \<le> 255" by simp
  then have "(of_nat (unat v) :: rat) \<le> of_nat 255" by (simp only: of_nat_le_iff)
  then show "num v \<le> 255" unfolding num_def by simp
  show "0 \<le> num v" unfolding num_def by (rule of_nat_0_le_iff)
qed

section \<open>Properties of the basic transformations\<close>

lemma contrastLoop_length: "length (contrastLoop c i d) = length d"
  by (induction c i d rule: contrastLoop.induct) (subst contrastLoop.simps, simp)

lemma contrastLoop_alpha:
  "i mod 4 = 0 \<Longrightarrow> k mod 4 = 3 \<Longrightarrow> contrastLoop c i d ! k = d ! k"
proof (induction c i d rule: contrastLoop.induct)
  case (1 c i d)
  show ?case
  proof (cases "i < length d")
    case True
    have ne: "k \<noteq> i" "k \<noteq> i + 1" "k \<noteq> i + 2"
      using "1.prems" by presburger+
    have "contrastLoop c i d ! k =
          contrastLoop c (i + 4) (d[i := contrastByte c (d ! i),
                i + 1 := contrastByte c (d ! (i + 1)),
                i + 2 := contrastByte c (d ! (i + 2))]) ! k"
      using True by (subst contrastLoop.simps) simp
    also have "\<dots> = (d[i := contrastByte c (d ! i),
                i + 1 := contrastByte c (d ! (i + 1)),
                i + 2 := contrastByte c (d ! (i + 2))]) ! k"
      using True "1.prems" by (intro "1.IH") auto
    also have "\<dots> = d ! k"
      using ne by simp
    finally show ?thesis .
  next
    case False
    then show ?thesis by (subst contrastLoop.simps) simp
  qed
qed

lemma grayscaleLoop_length: "length (grayscaleLoop i d) = length d"
  by (induction i d rule: grayscaleLoop.induct) (subst grayscaleLoop.simps, simp add: Let_def)

lemma toUint8Clamp_num: "toUint8Clamp (num b) = b"
proof -
  define n where "n = unat b"
  have n: "n < 256" unfolding n_def using unsigned_less [of b, where ?'a = nat] by simp
  have b: "b = of_nat n" unfolding n_def by simp
  have nb: "num b = of_nat n" unfolding num_def n_def ..
  consider "n = 0" | "n = 255" | "0 < n" "n < 255" using n by linarith
  then have "toUint8Clamp (of_nat n) = (of_nat n :: byte)"
  proof cases
    case 1
    then show ?thesis by (simp add: toUint8Clamp_def)
  next
    case 2
    then show ?thesis by (simp add: toUint8Clamp_def)
  next
    case 3
    then have "\<not> (of_nat n :: rat) \<le> 0" "\<not> 255 \<le> (of_nat n :: rat)"
      by simp_all
    then show ?thesis by (simp add: toUint8Clamp_def Let_def)
  qed
  then show ?thesis unfolding nb using b by simp
qed

text \<open>The luminance of a gray pixel \<open>(v, v, v)\<close> differs from \<open>v\<close> by rounding errors only,
  and is stored as \<open>v\<close>.\<close>

lemma store_gray_same:
  "store (addN (addN (mulN (Some (num v)) (Some (fl (299 / 1000))))
                     (mulN (Some (num v)) (Some (fl (587 / 1000)))))
               (mulN (Some (num v)) (Some (fl (114 / 1000))))) = v"
proof -
  define n where "n = num v"
  note n = num_bounds [of v, folded n_def]
  have c: "\<bar>fl (299 / 1000) - 299 / 1000\<bar> \<le> 1 / 2 ^ 42"
    "\<bar>fl (587 / 1000) - 587 / 1000\<bar> \<le> 1 / 2 ^ 42"
    "\<bar>fl (114 / 1000) - 114 / 1000\<bar> \<le> 1 / 2 ^ 42"
    by (rule fl_close, simp)+
  have p1: "\<bar>fl (n * fl (299 / 1000)) - n * (299 / 1000)\<bar> \<le> 1 / 2 ^ 33"
    using n c(1) by (rule mul_close) simp_all
  have p2: "\<bar>fl (n * fl (587 / 1000)) - n * (587 / 1000)\<bar> \<le> 1 / 2 ^ 33"
    using n c(2) by (rule mul_close) simp_all
  have p3: "\<bar>fl (n * fl (114 / 1000)) - n * (114 / 1000)\<bar> \<le> 1 / 2 ^ 33"
    using n c(3) by (rule mul_close) simp_all
  have s1: "\<bar>fl (fl (n * fl (299 / 1000)) + fl (n * fl (587 / 1000)))
        - (n * (299 / 1000) + n * (587 / 1000))\<bar> \<le> 1 / 2 ^ 33 + 1 / 2 ^ 33 + 1 / 2 ^ 42"
    using p1 p2 by (rule add_close) (use n in simp_all)
  have s2: "\<bar>fl (fl (fl (n * fl (299 / 1000)) + fl (n * fl (587 / 1000))) + fl (n * fl (114 / 1000)))
        - (n * (299 / 1000) + n * (587 / 1000) + n * (114 / 1000))\<bar>
        \<le> (1 / 2 ^ 33 + 1 / 2 ^ 33 + 1 / 2 ^ 42) + 1 / 2 ^ 33 + 1 / 2 ^ 42"
    using s1 p3 by (rule add_close) (use n in simp_all)
  have "n * (299 / 1000) + n * (587 / 1000) + n * (114 / 1000) = n" by simp
  with s2 have "\<bar>fl (fl (fl (n * fl (299 / 1000)) + fl (n * fl (587 / 1000))) + fl (n * fl (114 / 1000)))
        - of_nat (unat v)\<bar> < 1 / 2"
    by (simp add: n_def num_def)
  moreover have "unat v \<le> 255" using unsigned_less [of v, where ?'a = nat] by simp
  ultimately have "toUint8Clamp (fl (fl (fl (n * fl (299 / 1000)) + fl (n * fl (587 / 1000)))
      + fl (n * fl (114 / 1000)))) = of_nat (unat v)"
    by (intro toUint8Clamp_near)
  then show ?thesis
    by (simp add: store_def addN_def mulN_def n_def)
qed

lemma rd_update_other: "k \<noteq> int i \<Longrightarrow> rd (d[i := v]) k = rd d k"
  by (auto simp: rd_def)

lemma grayscaleLoop_nth:
  "i mod 4 = 0 \<Longrightarrow> k < length d \<Longrightarrow>
   grayscaleLoop i d ! k =
     (if k < i \<or> k mod 4 = 3 then d ! k else store (grayAvg d (k - k mod 4)))"
proof (induction i d rule: grayscaleLoop.induct)
  case (1 i d)
  show ?case
  proof (cases "i < length d")
    case True
    define a where "a = store (grayAvg d i)"
    define d' where "d' = d[i := a, i + 1 := a, i + 2 := a]"
    have step: "grayscaleLoop i d = grayscaleLoop (i + 4) d'"
      using True by (subst grayscaleLoop.simps) (simp add: Let_def d'_def a_def)
    have IH: "grayscaleLoop (i + 4) d' ! k =
        (if k < i + 4 \<or> k mod 4 = 3 then d' ! k else store (grayAvg d' (k - k mod 4)))"
      using "1.IH" [OF True, of a] "1.prems" True by (simp add: d'_def a_def)
    show ?thesis
    proof (cases "k < i \<or> k mod 4 = 3")
      case T: True
      then have "k \<noteq> i" "k \<noteq> i + 1" "k \<noteq> i + 2"
        using "1.prems"(1) by presburger+
      then have "d' ! k = d ! k" by (simp add: d'_def)
      moreover have "k < i + 4 \<or> k mod 4 = 3" using T by auto
      ultimately show ?thesis using step IH T by simp
    next
      case F: False
      show ?thesis
      proof (cases "k < i + 4")
        case T2: True
        with F "1.prems"(1) have k: "k = i \<or> k = i + 1 \<or> k = i + 2" and km: "k - k mod 4 = i"
          by presburger+
        have "d' ! k = a" using k "1.prems"(2) by (auto simp: d'_def)
        then show ?thesis using step IH T2 F km by (simp add: a_def)
      next
        case F2: False
        define j where "j = k - k mod 4"
        have j: "i + 4 \<le> j" using F2 "1.prems"(1) unfolding j_def by presburger
        have "grayAvg d' j = grayAvg d j"
          using j by (simp add: grayAvg_def d'_def rd_update_other)
        then show ?thesis using step IH F2 F by (simp add: j_def)
      qed
    qed
  next
    case False
    then show ?thesis using "1.prems" by (subst grayscaleLoop.simps) simp
  qed
qed


lemma grayscaleLoop_idem: "grayscaleLoop 0 (grayscaleLoop 0 d) = grayscaleLoop 0 d"
proof (rule nth_equalityI)
  show "length (grayscaleLoop 0 (grayscaleLoop 0 d)) = length (grayscaleLoop 0 d)"
    by (simp add: grayscaleLoop_length)
next
  fix k
  define g where "g = grayscaleLoop 0 d"
  assume "k < length (grayscaleLoop 0 (grayscaleLoop 0 d))"
  then have k: "k < length d" and kg: "k < length g"
    by (simp_all add: grayscaleLoop_length g_def)
  have lg: "length g = length d" by (simp add: g_def grayscaleLoop_length)
  have gn: "g ! m = (if m mod 4 = 3 then d ! m else store (grayAvg d (m - m mod 4)))"
    if "m < length d" for m
    unfolding g_def using grayscaleLoop_nth [of 0 m d] that by simp
  have "grayscaleLoop 0 g ! k = g ! k"
  proof (cases "k mod 4 = 3")
    case True
    then show ?thesis using grayscaleLoop_nth [of 0 k g] kg by simp
  next
    case False
    define j where "j = k - k mod 4"
    have j4: "j mod 4 = 0" "j \<le> k" "k < j + 3" unfolding j_def using False by presburger+
    have l: "grayscaleLoop 0 g ! k = store (grayAvg g j)"
      using grayscaleLoop_nth [of 0 k g] kg False by (simp add: j_def)
    have r: "g ! k = store (grayAvg d j)"
      using gn [OF k] False by (simp add: j_def)
    show ?thesis
    proof (cases "j + 2 < length d")
      case True
      define v where "v = store (grayAvg d j)"
      have m0: "j - j mod 4 = j" "(j + 1) - (j + 1) mod 4 = j" "(j + 2) - (j + 2) mod 4 = j"
        and m1: "j mod 4 \<noteq> 3" "(j + 1) mod 4 \<noteq> 3" "(j + 2) mod 4 \<noteq> 3"
        using j4(1) by presburger+
      have "g ! j = v" "g ! (j + 1) = v" "g ! (j + 2) = v"
        using gn [of j] gn [of "j + 1"] gn [of "j + 2"] True m0 m1 by (simp_all add: v_def)
      then have "grayAvg g j =
          addN (addN (mulN (Some (num v)) (Some (fl (299 / 1000))))
                     (mulN (Some (num v)) (Some (fl (587 / 1000)))))
               (mulN (Some (num v)) (Some (fl (114 / 1000))))"
        using True lg by (simp add: grayAvg_def rd_def nat_add_distrib)
      then have "store (grayAvg g j) = v" by (simp only: store_gray_same)
      then show ?thesis using l r by (simp add: v_def)
    next
      case False
      then have "rd g (int j + 2) = None" "rd d (int j + 2) = None"
        using lg by (simp_all add: rd_def)
      then have "grayAvg g j = None" "grayAvg d j = None"
        by (simp_all add: grayAvg_def addN_def mulN_def split: option.splits)
      then show ?thesis using l r by simp
    qed
  qed
  then show "grayscaleLoop 0 (grayscaleLoop 0 d) ! k = grayscaleLoop 0 d ! k"
    by (simp add: g_def)
qed

text \<open>
  C6. \<open>applyGrayscale\<close> is idempotent: applying it to its own result gives that result
  again, for every input object (an input the constructor rejects is rejected both
  times, with the same error).
\<close>

theorem applyGrayscale_idempotent:
  "(case applyGrayscale x of Inl e \<Rightarrow> Inl e | Inr y \<Rightarrow> applyGrayscale y) = applyGrayscale x"
  by (simp add: applyGrayscale_def newImageData_def grayscaleLoop_idem grayscaleLoop_length)

lemma brightnessLoop_length: "length (brightnessLoop b i d) = length d"
  by (induction b i d rule: brightnessLoop.induct) (subst brightnessLoop.simps, simp)

lemma brightnessLoop_alpha:
  "i mod 4 = 0 \<Longrightarrow> k mod 4 = 3 \<Longrightarrow> brightnessLoop b i d ! k = d ! k"
proof (induction b i d rule: brightnessLoop.induct)
  case (1 b i d)
  show ?case
  proof (cases "i < length d")
    case True
    have ne: "k \<noteq> i" "k \<noteq> i + 1" "k \<noteq> i + 2"
      using "1.prems" by presburger+
    have "brightnessLoop b i d ! k =
          brightnessLoop b (i + 4) (d[i := brightnessByte b (d ! i),
                i + 1 := brightnessByte b (d ! (i + 1)),
                i + 2 := brightnessByte b (d ! (i + 2))]) ! k"
      using True by (subst brightnessLoop.simps) simp
    also have "\<dots> = (d[i := brightnessByte b (d ! i),
                i + 1 := brightnessByte b (d ! (i + 1)),
                i + 2 := brightnessByte b (d ! (i + 2))]) ! k"
      using True "1.prems" by (intro "1.IH") auto
    also have "\<dots> = d ! k"
      using ne by simp
    finally show ?thesis .
  next
    case False
    then show ?thesis by (subst brightnessLoop.simps) simp
  qed
qed

lemma upt_0_3: "[0..<3] = [0, 1, 2]"
  by (simp add: upt_rec)

lemma sharpenPixel_frame:
  assumes "k mod 4 = 3"
  shows "length (sharpenPixel d kern w y x res) = length res \<and> sharpenPixel d kern w y x res ! k = res ! k"
proof -
  define p where "p = (y * w + x) * 4"
  have "p \<noteq> k" "p + 1 \<noteq> k" "p + 2 \<noteq> k"
    unfolding p_def using assms by presburger+
  then show ?thesis
    unfolding sharpenPixel_def upt_0_3 p_def [symmetric] by simp
qed

lemma sharpen_rows_frame:
  assumes "k mod 4 = 3"
  shows "length (fold (\<lambda>y. fold (sharpenPixel d kern w y) xs) ys res) = length res \<and>
         fold (\<lambda>y. fold (sharpenPixel d kern w y) xs) ys res ! k = res ! k"
proof -
  have row: "length (fold (sharpenPixel d kern w y) xs r) = length r \<and>
             fold (sharpenPixel d kern w y) xs r ! k = r ! k" for y r
    by (induction xs arbitrary: r) (simp_all add: sharpenPixel_frame [OF assms])
  show ?thesis
    by (induction ys arbitrary: res) (simp_all add: row)
qed

lemma newImageData_Inr:
  "newImageData d sw sh = Inr out \<Longrightarrow>
   out = \<lparr>width = sw, height = sh, data = d\<rparr> \<and> length d = sw * sh * 4"
  by (auto simp: newImageData_def split: if_splits)


text \<open>
  C10. \<open>applyContrast\<close>, \<open>applyBrightness\<close> and \<open>applySharpen\<close> leave every alpha byte
  (the bytes at the indices \<open>k\<close> with \<open>k mod 4 = 3\<close>) as it is in the input, for every
  input and every parameter value, and keep the length of the array.
\<close>

theorem alpha_unchanged:
  assumes "k mod 4 = 3"
  shows "(applyContrast imageData p = Inr out \<longrightarrow>
            length (data out) = length (data imageData) \<and> data out ! k = data imageData ! k) \<and>
         (applyBrightness imageData p = Inr out \<longrightarrow>
            length (data out) = length (data imageData) \<and> data out ! k = data imageData ! k) \<and>
         (applySharpen imageData p = Inr out \<longrightarrow>
            length (data out) = length (data imageData) \<and> data out ! k = data imageData ! k)"
proof (intro conjI impI)
  assume "applyContrast imageData p = Inr out"
  then have "data out = contrastLoop p 0 (data imageData)"
    by (auto simp: applyContrast_def dest: newImageData_Inr)
  then show "length (data out) = length (data imageData)" "data out ! k = data imageData ! k"
    using assms by (simp_all add: contrastLoop_length contrastLoop_alpha)
next
  assume "applyBrightness imageData p = Inr out"
  then have "data out = brightnessLoop p 0 (data imageData)"
    by (auto simp: applyBrightness_def dest: newImageData_Inr)
  then show "length (data out) = length (data imageData)" "data out ! k = data imageData ! k"
    using assms by (simp_all add: brightnessLoop_length brightnessLoop_alpha)
next
  assume a: "applySharpen imageData p = Inr out"
  show "length (data out) = length (data imageData)" "data out ! k = data imageData ! k"
  proof -
    have "length (data out) = length (data imageData) \<and> data out ! k = data imageData ! k"
    proof (cases "p = 0")
      case True
      with a show ?thesis by (simp add: applySharpen_def)
    next
      case False
      with a have "data out = fold (\<lambda>y. fold (sharpenPixel (data imageData) (sharpenKernel (fl (p / 10))) (width imageData) y)
            [1..<width imageData - 1]) [1..<height imageData - 1] (data imageData)"
        by (auto simp: applySharpen_def Let_def dest: newImageData_Inr)
      then show ?thesis using sharpen_rows_frame [OF assms] by simp
    qed
    then show "length (data out) = length (data imageData)" "data out ! k = data imageData ! k"
      by simp_all
  qed
qed

lemma thresholdLoop_length: "length (thresholdLoop t i d) = length d"
  by (induction t i d rule: thresholdLoop.induct) (subst thresholdLoop.simps, simp add: Let_def)

lemma thresholdLoop_nth:
  "i mod 4 = 0 \<Longrightarrow> k < length d \<Longrightarrow>
   thresholdLoop t i d ! k =
     (if k < i \<or> k mod 4 = 3 then d ! k
      else if num (d ! (k - k mod 4)) < t then 0 else 255)"
proof (induction t i d rule: thresholdLoop.induct)
  case (1 t i d)
  show ?case
  proof (cases "i < length d")
    case True
    define a :: byte where "a = (if num (d ! i) < t then 0 else 255)"
    define d' where "d' = d[i := a, i + 1 := a, i + 2 := a]"
    have step: "thresholdLoop t i d = thresholdLoop t (i + 4) d'"
      using True by (subst thresholdLoop.simps) (simp add: Let_def d'_def a_def)
    have IH: "thresholdLoop t (i + 4) d' ! k =
        (if k < i + 4 \<or> k mod 4 = 3 then d' ! k
         else if num (d' ! (k - k mod 4)) < t then 0 else 255)"
      using "1.IH" [OF True, of a] "1.prems" True by (simp add: d'_def a_def)
    show ?thesis
    proof (cases "k < i \<or> k mod 4 = 3")
      case T: True
      then have "k \<noteq> i" "k \<noteq> i + 1" "k \<noteq> i + 2"
        using "1.prems"(1) by presburger+
      then have "d' ! k = d ! k" by (simp add: d'_def)
      moreover have "k < i + 4 \<or> k mod 4 = 3" using T by auto
      ultimately show ?thesis using step IH T by simp
    next
      case F: False
      show ?thesis
      proof (cases "k < i + 4")
        case T2: True
        with F "1.prems"(1) have k: "k = i \<or> k = i + 1 \<or> k = i + 2" and km: "k - k mod 4 = i"
          by presburger+
        have "d' ! k = a" using k "1.prems"(2) by (auto simp: d'_def)
        then show ?thesis using step IH T2 F km by (simp add: a_def)
      next
        case F2: False
        define j where "j = k - k mod 4"
        have j: "i + 4 \<le> j" using F2 "1.prems"(1) unfolding j_def by presburger
        then have "d' ! j = d ! j"
          by (simp add: d'_def)
        then show ?thesis using step IH F2 F by (simp add: j_def)
      qed
    qed
  next
    case False
    then show ?thesis using "1.prems" by (subst thresholdLoop.simps) simp
  qed
qed

text \<open>
  C7. In the output of \<open>applyThreshold\<close> every colour byte is 0 or 255 and every alpha
  byte is the input's, for every input and threshold.
\<close>

theorem applyThreshold_binary:
  assumes "applyThreshold imageData threshold = Inr out"
  shows "length (data out) = length (data imageData) \<and>
         (\<forall>k < length (data imageData).
            if k mod 4 = 3 then data out ! k = data imageData ! k
            else data out ! k = 0 \<or> data out ! k = 255)"
proof -
  define g where "g = grayscaleLoop 0 (data imageData)"
  from assms obtain gi where gi: "applyGrayscale imageData = Inr gi"
    and o: "newImageData (thresholdLoop threshold 0 (data gi)) (width imageData) (height imageData) = Inr out"
    by (auto simp: applyThreshold_def split: sum.splits)
  from gi have dg: "data gi = g"
    by (auto simp: applyGrayscale_def g_def dest: newImageData_Inr)
  from o dg have dout: "data out = thresholdLoop threshold 0 g"
    by (auto dest: newImageData_Inr)
  have lg: "length g = length (data imageData)" by (simp add: g_def grayscaleLoop_length)
  show ?thesis
  proof (intro conjI allI impI)
    show "length (data out) = length (data imageData)"
      by (simp add: dout thresholdLoop_length lg)
  next
    fix k assume k: "k < length (data imageData)"
    have t: "data out ! k = (if k mod 4 = 3 then g ! k
        else if num (g ! (k - k mod 4)) < threshold then 0 else 255)"
      using thresholdLoop_nth [of 0 k g threshold] k lg by (simp add: dout)
    have "g ! k = data imageData ! k" if "k mod 4 = 3"
      using grayscaleLoop_nth [of 0 k "data imageData"] k that by (simp add: g_def)
    with t show "if k mod 4 = 3 then data out ! k = data imageData ! k
            else data out ! k = 0 \<or> data out ! k = 255"
      by simp
  qed
qed

text \<open>
  C3. A transform whose type is none of the eight strings of the \<open>switch\<close> is a
  passthrough: \<open>applyTransformation\<close> returns its input object and raises nothing.
\<close>

theorem unknown_type_passthrough:
  assumes "type t \<notin> {''contrast'', ''brightness'', ''sharpening'', ''threshold'', ''grayscale'',
                      ''edges'', ''canny'', ''segmentation''}"
  shows "applyTransformation rnd imageData t = Some (Inr imageData)"
  using assms by (simp add: applyTransformation_def)









section \<open>Folds over pixels\<close>

lemma fold_rows_product:
  "fold (\<lambda>y. fold (F y) xs) ys s = fold (\<lambda>(y, x). F y x) (List.product ys xs) s"
proof (induction ys arbitrary: s)
  case Nil
  then show ?case by simp
next
  case (Cons y ys)
  have "fold (\<lambda>(y, x). F y x) (map (Pair y) xs) s = fold (F y) xs s"
    by (simp add: fold_map comp_def)
  then show ?case using Cons.IH by simp
qed

lemma fold_pixels_frame:
  assumes "\<And>c r. c \<in> set cs \<Longrightarrow>
             length (G c r) = length r \<and> (\<forall>k. k div 4 \<noteq> pix c \<longrightarrow> G c r ! k = r ! k)"
  shows "length (fold G cs r) = length r \<and>
         (\<forall>k. k div 4 \<notin> pix ` set cs \<longrightarrow> fold G cs r ! k = r ! k)"
  using assms
proof (induction cs arbitrary: r)
  case Nil
  then show ?case by simp
next
  case (Cons c cs)
  have step: "length (G c r) = length r \<and> (\<forall>k. k div 4 \<noteq> pix c \<longrightarrow> G c r ! k = r ! k)"
    by (rule Cons.prems) simp
  have rest: "length (fold G cs (G c r)) = length (G c r) \<and>
         (\<forall>k. k div 4 \<notin> pix ` set cs \<longrightarrow> fold G cs (G c r) ! k = G c r ! k)"
    by (rule Cons.IH) (simp add: Cons.prems)
  from step rest show ?case by auto
qed

lemma fold_pixels_hit:
  assumes frame: "\<And>c r. c \<in> set cs \<Longrightarrow>
             length (G c r) = length r \<and> (\<forall>k. k div 4 \<noteq> pix c \<longrightarrow> G c r ! k = r ! k)"
    and "c0 \<in> set cs" and "distinct cs" and "inj_on pix (set cs)"
  shows "\<exists>r'. length r' = length r \<and>
           (\<forall>k. k div 4 = pix c0 \<longrightarrow> r' ! k = r ! k) \<and>
           (\<forall>k. k div 4 = pix c0 \<longrightarrow> fold G cs r ! k = G c0 r' ! k)"
  using assms
proof (induction cs arbitrary: r)
  case Nil
  then show ?case by simp
next
  case (Cons c cs)
  have fr: "\<And>c r. c \<in> set cs \<Longrightarrow>
             length (G c r) = length r \<and> (\<forall>k. k div 4 \<noteq> pix c \<longrightarrow> G c r ! k = r ! k)"
    using Cons.prems(1) by simp
  have step: "length (G c r) = length r \<and> (\<forall>k. k div 4 \<noteq> pix c \<longrightarrow> G c r ! k = r ! k)"
    by (rule Cons.prems(1)) simp
  show ?case
  proof (cases "c0 = c")
    case True
    have "pix c0 \<notin> pix ` set cs"
      using Cons.prems(3,4) True by (auto simp: inj_on_def)
    then have "\<forall>k. k div 4 = pix c0 \<longrightarrow> fold G cs (G c r) ! k = G c r ! k"
      using fold_pixels_frame [of cs G pix "G c r"] fr by auto
    then show ?thesis using True by (intro exI [of _ r]) simp
  next
    case False
    then have c0: "c0 \<in> set cs" using Cons.prems(2) by simp
    have "pix c \<noteq> pix c0"
      using Cons.prems(2,4) False by (auto simp: inj_on_def)
    moreover have "\<exists>r'. length r' = length (G c r) \<and>
           (\<forall>k. k div 4 = pix c0 \<longrightarrow> r' ! k = G c r ! k) \<and>
           (\<forall>k. k div 4 = pix c0 \<longrightarrow> fold G cs (G c r) ! k = G c0 r' ! k)"
      using Cons.prems(3,4) by (intro Cons.IH fr c0) auto
    ultimately show ?thesis using step by auto
  qed
qed

lemma pixel_index_inj:
  assumes "set xs \<subseteq> {..<w :: nat}"
  shows "inj_on (\<lambda>(y, x). y * w + x) (set (List.product ys xs))"
proof (rule inj_onI)
  fix a b
  assume a: "a \<in> set (List.product ys xs)" and b: "b \<in> set (List.product ys xs)"
    and eq: "(case a of (y, x) \<Rightarrow> y * w + x) = (case b of (y, x) \<Rightarrow> y * w + x)"
  obtain y1 x1 y2 x2 where ab: "a = (y1, x1)" "b = (y2, x2)" by (cases a, cases b) auto
  with a b assms have lt: "x1 < w" "x2 < w" by auto
  from eq ab have e: "y1 * w + x1 = y2 * w + x2" by simp
  from e lt have "(y1 * w + x1) div w = (y2 * w + x2) div w" by simp
  with lt have "y1 = y2" by simp
  with e ab show "a = b" by simp
qed

lemma pixel_index_bounds:
  "0 \<le> a \<Longrightarrow> a < int h \<Longrightarrow> 0 \<le> b \<Longrightarrow> b < int w \<Longrightarrow>
   0 \<le> a * int w + b \<and> a * int w + b < int (w * h)"
proof -
  assume a: "0 \<le> a" "a < int h" and b: "0 \<le> b" "b < int w"
  have "a * int w + b < a * int w + int w" using b by simp
  also have "\<dots> = (a + 1) * int w" by (simp add: algebra_simps)
  also have "\<dots> \<le> int h * int w"
    using a by (intro mult_right_mono) auto
  finally have "a * int w + b < int (w * h)" by (simp add: mult.commute)
  moreover have "0 \<le> a * int w + b" using a b by simp
  ultimately show ?thesis by simp
qed

lemma nth_concat_replicate:
  "k < length xs * n \<Longrightarrow> concat (replicate n xs) ! k = xs ! (k mod length xs)"
proof (induction n arbitrary: k)
  case 0
  then show ?case by simp
next
  case (Suc n)
  show ?case
  proof (cases "k < length xs")
    case True
    then show ?thesis by (simp add: nth_append)
  next
    case False
    then have "k - length xs < length xs * n"
      using Suc.prems by simp
    then have "concat (replicate n xs) ! (k - length xs) = xs ! ((k - length xs) mod length xs)"
      by (rule Suc.IH)
    moreover have "(k - length xs) mod length xs = k mod length xs"
      using False by (simp add: le_mod_geq)
    ultimately show ?thesis using False by (simp add: nth_append)
  qed
qed

lemma length_concat_replicate4:
  "length (concat (replicate n [a0, a1, a2, a3])) = 4 * n"
  by (induction n) simp_all

lemma pixel_update_other:
  assumes "k div 4 \<noteq> q"
  shows "r[q * 4 := a, q * 4 + 1 := b, q * 4 + 2 := c, q * 4 + 3 := e] ! k = r ! k"
    and "r[q * 4 := a, q * 4 + 1 := b, q * 4 + 2 := c] ! k = r ! k"
proof -
  have "q * 4 \<noteq> k" "q * 4 + 1 \<noteq> k" "q * 4 + 2 \<noteq> k" "q * 4 + 3 \<noteq> k"
    using assms by presburger+
  then show "r[q * 4 := a, q * 4 + 1 := b, q * 4 + 2 := c, q * 4 + 3 := e] ! k = r ! k"
    and "r[q * 4 := a, q * 4 + 1 := b, q * 4 + 2 := c] ! k = r ! k"
    by simp_all
qed

lemma pixel_update_nth:
  assumes "k div 4 = q" "k < length r"
  shows "r[q * 4 := a, q * 4 + 1 := b, q * 4 + 2 := c, q * 4 + 3 := e] ! k
           = (if k mod 4 = 0 then a else if k mod 4 = 1 then b else if k mod 4 = 2 then c else e)"
    and "r[q * 4 := a, q * 4 + 1 := b, q * 4 + 2 := c] ! k
           = (if k mod 4 = 0 then a else if k mod 4 = 1 then b else if k mod 4 = 2 then c else r ! k)"
proof -
  have ke: "k = q * 4 + k mod 4"
    using div_mult_mod_eq [of k 4] assms(1) by simp
  have "k mod 4 < 4" by simp
  then consider "k mod 4 = 0" | "k mod 4 = 1" | "k mod 4 = 2" | "k mod 4 = 3"
    by linarith
  then have "r[q * 4 := a, q * 4 + 1 := b, q * 4 + 2 := c, q * 4 + 3 := e] ! k
           = (if k mod 4 = 0 then a else if k mod 4 = 1 then b else if k mod 4 = 2 then c else e)
         \<and> r[q * 4 := a, q * 4 + 1 := b, q * 4 + 2 := c] ! k
           = (if k mod 4 = 0 then a else if k mod 4 = 1 then b else if k mod 4 = 2 then c else r ! k)"
  proof cases
    case 1
    then have e: "k = q * 4" using ke by simp
    have "q * 4 < length r" using assms(2) e by simp
    then have "r[q * 4 := a, q * 4 + 1 := b, q * 4 + 2 := c, q * 4 + 3 := e] ! k = a"
      "r[q * 4 := a, q * 4 + 1 := b, q * 4 + 2 := c] ! k = a"
      unfolding e by simp_all
    then show ?thesis using 1 by simp
  next
    case 2
    then have e: "k = q * 4 + 1" using ke by simp
    have "q * 4 + 1 < length r" using assms(2) e by simp
    then have "r[q * 4 := a, q * 4 + 1 := b, q * 4 + 2 := c, q * 4 + 3 := e] ! k = b"
      "r[q * 4 := a, q * 4 + 1 := b, q * 4 + 2 := c] ! k = b"
      unfolding e by simp_all
    then show ?thesis using 2 by simp
  next
    case 3
    then have e: "k = q * 4 + 2" using ke by simp
    have "q * 4 + 2 < length r" using assms(2) e by simp
    then have "r[q * 4 := a, q * 4 + 1 := b, q * 4 + 2 := c, q * 4 + 3 := e] ! k = c"
      "r[q * 4 := a, q * 4 + 1 := b, q * 4 + 2 := c] ! k = c"
      unfolding e by simp_all
    then show ?thesis using 3 by simp
  next
    case 4
    then have e: "k = q * 4 + 3" using ke by simp
    have "q * 4 + 3 < length r" using assms(2) e by simp
    then have "r[q * 4 := a, q * 4 + 1 := b, q * 4 + 2 := c, q * 4 + 3 := e] ! k = e"
      "r[q * 4 := a, q * 4 + 1 := b, q * 4 + 2 := c] ! k = r ! k"
      unfolding e by simp_all
    then show ?thesis using 4 by simp
  qed
  then show "r[q * 4 := a, q * 4 + 1 := b, q * 4 + 2 := c, q * 4 + 3 := e] ! k
           = (if k mod 4 = 0 then a else if k mod 4 = 1 then b else if k mod 4 = 2 then c else e)"
    and "r[q * 4 := a, q * 4 + 1 := b, q * 4 + 2 := c] ! k
           = (if k mod 4 = 0 then a else if k mod 4 = 1 then b else if k mod 4 = 2 then c else r ! k)"
    by simp_all
qed

lemma sobelPixel_eq:
  "sobelPixel d w y x r =
     r[(y * w + x) * 4 := store (sqrtN (addN (mulN (fst (sobelSums d w x y)) (fst (sobelSums d w x y)))
                           (mulN (snd (sobelSums d w x y)) (snd (sobelSums d w x y))))),
       (y * w + x) * 4 + 1 := store (sqrtN (addN (mulN (fst (sobelSums d w x y)) (fst (sobelSums d w x y)))
                           (mulN (snd (sobelSums d w x y)) (snd (sobelSums d w x y))))),
       (y * w + x) * 4 + 2 := store (sqrtN (addN (mulN (fst (sobelSums d w x y)) (fst (sobelSums d w x y)))
                           (mulN (snd (sobelSums d w x y)) (snd (sobelSums d w x y))))),
       (y * w + x) * 4 + 3 := 255]"
  by (simp add: sobelPixel_def Let_def split: prod.splits)

lemma sobelPixel_frame:
  "length (sobelPixel d w y x r) = length r \<and>
   (\<forall>k. k div 4 \<noteq> y * w + x \<longrightarrow> sobelPixel d w y x r ! k = r ! k)"
proof (intro conjI allI impI)
  show "length (sobelPixel d w y x r) = length r"
    unfolding sobelPixel_eq by simp
  fix k assume "k div 4 \<noteq> y * w + x"
  then show "sobelPixel d w y x r ! k = r ! k"
    unfolding sobelPixel_eq by (rule pixel_update_other)
qed

lemma sobelPixel_value:
  assumes "k div 4 = y * w + x" "k < length r"
  shows "sobelPixel d w y x r ! k =
     (if k mod 4 = 3 then 255
      else store (sqrtN (addN (mulN (fst (sobelSums d w x y)) (fst (sobelSums d w x y)))
                           (mulN (snd (sobelSums d w x y)) (snd (sobelSums d w x y))))))"
proof -
  have "k mod 4 = 0 \<or> k mod 4 = 1 \<or> k mod 4 = 2 \<or> k mod 4 = 3" by presburger
  then show ?thesis
    unfolding sobelPixel_eq pixel_update_nth(1) [OF assms] by auto
qed

lemma borderPixel_eq:
  "borderPixel w h y x r =
     (if int x \<noteq> 0 \<and> int x \<noteq> int w - 1 \<and> int y \<noteq> 0 \<and> int y \<noteq> int h - 1 then r
      else r[(y * w + x) * 4 := 0, (y * w + x) * 4 + 1 := 0, (y * w + x) * 4 + 2 := 0,
             (y * w + x) * 4 + 3 := 255])"
  unfolding borderPixel_def Let_def ..

lemma borderPixel_cases:
  "borderPixel w h y x r = r \<and> int x \<noteq> 0 \<and> int x \<noteq> int w - 1 \<and> int y \<noteq> 0 \<and> int y \<noteq> int h - 1
   \<or> borderPixel w h y x r =
        r[(y * w + x) * 4 := 0, (y * w + x) * 4 + 1 := 0, (y * w + x) * 4 + 2 := 0,
          (y * w + x) * 4 + 3 := 255]
     \<and> \<not> (int x \<noteq> 0 \<and> int x \<noteq> int w - 1 \<and> int y \<noteq> 0 \<and> int y \<noteq> int h - 1)"
proof (cases "int x \<noteq> 0 \<and> int x \<noteq> int w - 1 \<and> int y \<noteq> 0 \<and> int y \<noteq> int h - 1")
  case True
  then have "borderPixel w h y x r = r"
    unfolding borderPixel_eq by (rule if_P)
  with True show ?thesis by blast
next
  case False
  then have "borderPixel w h y x r =
        r[(y * w + x) * 4 := 0, (y * w + x) * 4 + 1 := 0, (y * w + x) * 4 + 2 := 0,
          (y * w + x) * 4 + 3 := 255]"
    unfolding borderPixel_eq by (rule if_not_P)
  with False show ?thesis by blast
qed

lemma borderPixel_frame:
  "length (borderPixel w h y x r) = length r \<and>
   (\<forall>k. k div 4 \<noteq> y * w + x \<longrightarrow> borderPixel w h y x r ! k = r ! k)"
proof (intro conjI allI impI)
  show "length (borderPixel w h y x r) = length r"
    using borderPixel_cases [of w h y x r] by (elim disjE conjE) simp_all
  fix k assume "k div 4 \<noteq> y * w + x"
  then have "r[(y * w + x) * 4 := 0, (y * w + x) * 4 + 1 := 0, (y * w + x) * 4 + 2 := 0,
             (y * w + x) * 4 + 3 := 255] ! k = r ! k"
    by (rule pixel_update_other)
  then show "borderPixel w h y x r ! k = r ! k"
    using borderPixel_cases [of w h y x r] by (elim disjE conjE) simp_all
qed

lemma borderPixel_value:
  assumes "k div 4 = y * w + x" "k < length r"
  shows "borderPixel w h y x r ! k =
     (if int x \<noteq> 0 \<and> int x \<noteq> int w - 1 \<and> int y \<noteq> 0 \<and> int y \<noteq> int h - 1 then r ! k
      else if k mod 4 = 3 then 255 else 0)"
proof -
  have m: "k mod 4 = 0 \<or> k mod 4 = 1 \<or> k mod 4 = 2 \<or> k mod 4 = 3" by presburger
  have u: "r[(y * w + x) * 4 := 0, (y * w + x) * 4 + 1 := 0, (y * w + x) * 4 + 2 := 0,
             (y * w + x) * 4 + 3 := 255] ! k = (if k mod 4 = 3 then 255 else 0)"
    unfolding pixel_update_nth(1) [OF assms] using m by auto
  from borderPixel_cases [of w h y x r] show ?thesis
  proof (elim disjE conjE)
    assume "borderPixel w h y x r = r" "int x \<noteq> 0" "int x \<noteq> int w - 1" "int y \<noteq> 0"
      "int y \<noteq> int h - 1"
    then show ?thesis by (simp only: if_True simp_thms)
  next
    assume e: "borderPixel w h y x r =
        r[(y * w + x) * 4 := 0, (y * w + x) * 4 + 1 := 0, (y * w + x) * 4 + 2 := 0,
          (y * w + x) * 4 + 3 := 255]"
      and n: "\<not> (int x \<noteq> 0 \<and> int x \<noteq> int w - 1 \<and> int y \<noteq> 0 \<and> int y \<noteq> int h - 1)"
    show ?thesis
      unfolding e u using n by (simp only: if_False)
  qed
qed

lemma sobelSums_constant:
  assumes "\<And>ky kx. ky \<in> {-1, 0, 1} \<Longrightarrow> kx \<in> {-1, 0, 1} \<Longrightarrow>
             rd d (((int y + ky) * int w + (int x + kx)) * 4) = Some (num v)"
  shows "sobelSums d w x y = (Some 0, Some 0)"
proof -
  define m where "m = int (unat v)"
  define S where "S = (\<lambda>a :: int. Some (of_int a :: rat))"
  have u: "unat v < 256" using unsigned_less [of v, where ?'a = nat] by simp
  have m: "0 \<le> m" "m \<le> 255"
    unfolding m_def using u by linarith+
  have nv: "Some (num v) = S m"
    by (simp add: num_def m_def S_def)
  have init: "Some (0::rat) = S 0" by (simp add: S_def)
  have mul: "mulN (S m) (Some (- 1)) = S (- m)" "mulN (S m) (Some 0) = S 0"
    "mulN (S m) (Some 1) = S m" "mulN (S m) (Some 2) = S (2 * m)"
    "mulN (S m) (Some (- 2)) = S (- 2 * m)"
  proof -
    have "fl (of_int (- m)) = of_int (- m)" "fl (of_int m) = of_int m"
      "fl (of_int (2 * m)) = of_int (2 * m)" "fl (of_int (- 2 * m)) = of_int (- 2 * m)"
      using m by (intro fl_int; simp)+
    then show "mulN (S m) (Some (- 1)) = S (- m)" "mulN (S m) (Some 0) = S 0"
      "mulN (S m) (Some 1) = S m" "mulN (S m) (Some 2) = S (2 * m)"
      "mulN (S m) (Some (- 2)) = S (- 2 * m)"
      by (simp_all add: mulN_def S_def fl_0 mult.commute)
  qed
  have add: "addN (S a) (S b) = S (a + b)" if "- 4096 \<le> a + b" "a + b \<le> 4096" for a b
  proof -
    have "fl (of_int (a + b)) = of_int (a + b)" using that by (intro fl_int) simp
    then show ?thesis by (simp add: addN_def S_def)
  qed
  have r: "rd d (((int y + - 1) * int w + (int x + - 1)) * 4) = S m"
    "rd d (((int y + - 1) * int w + (int x + 0)) * 4) = S m"
    "rd d (((int y + - 1) * int w + (int x + 1)) * 4) = S m"
    "rd d (((int y + 0) * int w + (int x + - 1)) * 4) = S m"
    "rd d (((int y + 0) * int w + (int x + 0)) * 4) = S m"
    "rd d (((int y + 0) * int w + (int x + 1)) * 4) = S m"
    "rd d (((int y + 1) * int w + (int x + - 1)) * 4) = S m"
    "rd d (((int y + 1) * int w + (int x + 0)) * 4) = S m"
    "rd d (((int y + 1) * int w + (int x + 1)) * 4) = S m"
    unfolding nv [symmetric] by (rule assms; simp)+
  have k: "kernelX ! 0 = - 1" "kernelX ! 1 = 0" "kernelX ! 2 = 1" "kernelX ! 3 = - 2"
    "kernelX ! 4 = 0" "kernelX ! 5 = 2" "kernelX ! 6 = - 1" "kernelX ! 7 = 0" "kernelX ! 8 = 1"
    "kernelY ! 0 = - 1" "kernelY ! 1 = - 2" "kernelY ! 2 = - 1" "kernelY ! 3 = 0"
    "kernelY ! 4 = 0" "kernelY ! 5 = 0" "kernelY ! 6 = 1" "kernelY ! 7 = 2" "kernelY ! 8 = 1"
    by (simp_all add: kernelX_def kernelY_def)
  have "sobelSums d w x y =
    (addN (addN (addN (addN (addN (addN (addN (addN (addN (S 0)
       (mulN (S m) (Some (kernelX ! 0)))) (mulN (S m) (Some (kernelX ! 1))))
       (mulN (S m) (Some (kernelX ! 2)))) (mulN (S m) (Some (kernelX ! 3))))
       (mulN (S m) (Some (kernelX ! 4)))) (mulN (S m) (Some (kernelX ! 5))))
       (mulN (S m) (Some (kernelX ! 6)))) (mulN (S m) (Some (kernelX ! 7))))
       (mulN (S m) (Some (kernelX ! 8))),
     addN (addN (addN (addN (addN (addN (addN (addN (addN (S 0)
       (mulN (S m) (Some (kernelY ! 0)))) (mulN (S m) (Some (kernelY ! 1))))
       (mulN (S m) (Some (kernelY ! 2)))) (mulN (S m) (Some (kernelY ! 3))))
       (mulN (S m) (Some (kernelY ! 4)))) (mulN (S m) (Some (kernelY ! 5))))
       (mulN (S m) (Some (kernelY ! 6)))) (mulN (S m) (Some (kernelY ! 7))))
       (mulN (S m) (Some (kernelY ! 8))))"
    unfolding sobelSums_def init
    by (simp only: fold.simps o_apply id_apply prod.case Let_def r) simp
  also have "\<dots> = (S 0, S 0)"
    unfolding k mul using m by (simp add: add)
  finally show ?thesis by (simp add: S_def)
qed

lemma newImageData_ok:
  assumes "length d = sw * sh * 4"
  shows "newImageData d sw sh = Inr \<lparr>width = sw, height = sh, data = d\<rparr>"
  using assms by (simp add: newImageData_def)

lemma rd_pixel:
  assumes "0 \<le> i" "nat i * 4 + j < length d"
  shows "rd d (i * 4 + int j) = Some (num (d ! (nat i * 4 + j)))"
proof -
  have "nat (i * 4 + int j) = nat i * 4 + j" using assms(1) by (simp add: nat_add_distrib nat_mult_distrib)
  moreover have "0 \<le> i * 4 + int j" "i * 4 + int j < int (length d)" using assms by auto
  ultimately show ?thesis by (simp add: rd_def)
qed

lemma const_data_nth:
  assumes "q < n" "j < 4"
  shows "concat (replicate n [a0, a1, a2, a3]) ! (q * 4 + j) = [a0, a1, a2, a3] ! j"
proof -
  have "q * 4 + j < length [a0, a1, a2, a3] * n" using assms by simp
  then have "concat (replicate n [a0, a1, a2, a3]) ! (q * 4 + j)
      = [a0, a1, a2, a3] ! ((q * 4 + j) mod length [a0, a1, a2, a3])"
    by (rule nth_concat_replicate)
  moreover have "(q * 4 + j) mod length [a0, a1, a2, a3] = j" using assms(2) by simp
  ultimately show ?thesis by simp
qed

lemma grayscale_constant:
  assumes "q < n"
  shows "grayscaleLoop 0 (concat (replicate n [r, g, b, a])) ! (q * 4)
     = store (addN (addN (mulN (Some (num r)) (Some (fl (299 / 1000))))
                         (mulN (Some (num g)) (Some (fl (587 / 1000)))))
                   (mulN (Some (num b)) (Some (fl (114 / 1000)))))"
proof -
  define d where "d = concat (replicate n [r, g, b, a])"
  have l: "length d = 4 * n" by (simp add: d_def length_concat_replicate4)
  have k: "q * 4 < length d" "q * 4 mod 4 = 0" "q * 4 - q * 4 mod 4 = q * 4"
    using assms l by simp_all
  have gl: "grayscaleLoop 0 d ! (q * 4) = store (grayAvg d (q * 4))"
    using grayscaleLoop_nth [of 0 "q * 4" d] k by simp
  have e: "rd d (int q * 4 + int j) = Some (num ([r, g, b, a] ! j))" if "j < 4" for j
  proof -
    have "nat (int q) * 4 + j < length d" using that assms l by simp
    then have "rd d (int q * 4 + int j) = Some (num (d ! (nat (int q) * 4 + j)))"
      by (intro rd_pixel) simp_all
    then show ?thesis using const_data_nth [OF assms that, of r g b a] by (simp add: d_def)
  qed
  have "rd d (int q * 4) = Some (num r)" "rd d (int q * 4 + 1) = Some (num g)"
    "rd d (int q * 4 + 2) = Some (num b)"
    using e [of 0] e [of 1] e [of 2] by simp_all
  then have "grayAvg d (q * 4) =
      addN (addN (mulN (Some (num r)) (Some (fl (299 / 1000))))
                 (mulN (Some (num g)) (Some (fl (587 / 1000)))))
           (mulN (Some (num b)) (Some (fl (114 / 1000))))"
    by (simp add: grayAvg_def)
  with gl show ?thesis by (simp add: d_def)
qed

lemma black_pixel_nth:
  assumes "k < n * 4"
  shows "concat (replicate n [0, 0, 0, 255 :: byte]) ! k = (if k mod 4 = 3 then 255 else 0)"
proof -
  have "k < length [0, 0, 0, 255 :: byte] * n" using assms by simp
  then have "concat (replicate n [0, 0, 0, 255 :: byte]) ! k
      = [0, 0, 0, 255 :: byte] ! (k mod length [0, 0, 0, 255 :: byte])"
    by (rule nth_concat_replicate)
  moreover have "k mod 4 = 0 \<or> k mod 4 = 1 \<or> k mod 4 = 2 \<or> k mod 4 = 3" by presburger
  ultimately show ?thesis by auto
qed

section \<open>Sobel on a constant image\<close>

lemma sobelData_constant:
  assumes len: "length g = w * h * 4" and w: "0 < w" and h: "0 < h"
    and const: "\<And>q. q < w * h \<Longrightarrow> g ! (q * 4) = v"
  shows "sobelData g w h = concat (replicate (w * h) [0, 0, 0, 255])"
proof (rule nth_equalityI)
  define cs1 where "cs1 = List.product [1..<h - 1] [1..<w - 1]"
  define cs2 where "cs2 = List.product [0..<h] [0..<w]"
  define pix :: "nat \<times> nat \<Rightarrow> nat" where "pix = (\<lambda>(y, x). y * w + x)"
  define G1 where "G1 = (\<lambda>(y, x). sobelPixel g w y x)"
  define G2 where "G2 = (\<lambda>(y, x). borderPixel w h y x)"
  define res0 where "res0 = replicate (length g) (0 :: byte)"
  define conv where "conv = fold G1 cs1 res0"
  have sd: "sobelData g w h = fold G2 cs2 conv"
    by (simp add: sobelData_def Let_def fold_rows_product cs1_def cs2_def G1_def G2_def
        conv_def res0_def)
  have fr1: "length (G1 c r) = length r \<and> (\<forall>k. k div 4 \<noteq> pix c \<longrightarrow> G1 c r ! k = r ! k)" for c r
    using sobelPixel_frame [of g w "fst c" "snd c" r] by (simp add: G1_def pix_def split_beta)
  have fr2: "length (G2 c r) = length r \<and> (\<forall>k. k div 4 \<noteq> pix c \<longrightarrow> G2 c r ! k = r ! k)" for c r
    using borderPixel_frame [of w h "fst c" "snd c" r] by (simp add: G2_def pix_def split_beta)
  have lconv: "length conv = length g"
    using fold_pixels_frame [of cs1 G1 pix res0] fr1 by (simp add: conv_def res0_def)
  have lout: "length (sobelData g w h) = length g"
    using fold_pixels_frame [of cs2 G2 pix conv] fr2 lconv by (simp add: sd)
  show "length (sobelData g w h) = length (concat (replicate (w * h) [0, 0, 0, 255 :: byte]))"
    by (simp add: lout len length_concat_replicate4)
  fix k
  assume "k < length (sobelData g w h)"
  then have k: "k < w * h * 4" by (simp add: lout len)
  define p where "p = k div 4"
  define y where "y = p div w"
  define x where "x = p mod w"
  have p: "p < w * h" using k by (simp add: p_def)
  have x: "x < w" using w by (simp add: x_def)
  have y: "y < h" using p by (simp add: y_def less_mult_imp_div_less mult.commute)
  have pyx: "p = y * w + x" by (simp add: x_def y_def)
  have kp: "k div 4 = pix (y, x)" by (simp add: pix_def pyx [symmetric] p_def)
  have i1: "inj_on pix (set cs1)" and i2: "inj_on pix (set cs2)"
    unfolding pix_def cs1_def cs2_def by (rule pixel_index_inj; auto)+
  have d1: "distinct cs1" and d2: "distinct cs2"
    by (simp_all add: cs1_def cs2_def distinct_product)
  have "(y, x) \<in> set cs2" using x y by (simp add: cs2_def)
  from fold_pixels_hit [of cs2 G2 pix "(y, x)" conv, OF fr2 this d2 i2]
  obtain r' where r': "length r' = length conv"
    "\<forall>k. k div 4 = pix (y, x) \<longrightarrow> r' ! k = conv ! k"
    "\<forall>k. k div 4 = pix (y, x) \<longrightarrow> fold G2 cs2 conv ! k = G2 (y, x) r' ! k"
    by blast
  have kr: "k < length r'" using k r'(1) lconv len by simp
  have out: "sobelData g w h ! k =
     (if int x \<noteq> 0 \<and> int x \<noteq> int w - 1 \<and> int y \<noteq> 0 \<and> int y \<noteq> int h - 1 then conv ! k
      else if k mod 4 = 3 then 255 else 0)"
    using r'(2,3) kp borderPixel_value [of k y w x r' h] kr
    by (simp add: sd G2_def pix_def)
  have "sobelData g w h ! k = (if k mod 4 = 3 then 255 else 0)"
  proof (cases "int x \<noteq> 0 \<and> int x \<noteq> int w - 1 \<and> int y \<noteq> 0 \<and> int y \<noteq> int h - 1")
    case False
    then show ?thesis unfolding out by (simp only: if_False)
  next
    case True
    then have xi: "1 \<le> x" "x < w - 1" and yi: "1 \<le> y" "y < h - 1"
      using x y by auto
    then have "(y, x) \<in> set cs1" by (simp add: cs1_def)
    from fold_pixels_hit [of cs1 G1 pix "(y, x)" res0, OF fr1 this d1 i1]
    obtain r'' where r'': "length r'' = length res0"
      "\<forall>k. k div 4 = pix (y, x) \<longrightarrow> fold G1 cs1 res0 ! k = G1 (y, x) r'' ! k"
      by blast
    have kr': "k < length r''" using k r''(1) len by (simp add: res0_def)
    have rdv: "rd g (((int y + ky) * int w + (int x + kx)) * 4) = Some (num v)"
      if "ky \<in> {-1, 0, 1}" "kx \<in> {-1, 0, 1}" for ky kx
    proof -
      define i where "i = (int y + ky) * int w + (int x + kx)"
      have "0 \<le> int y + ky" "int y + ky < int h" "0 \<le> int x + kx" "int x + kx < int w"
        using that xi yi by auto
      then have i: "0 \<le> i" "i < int (w * h)"
        unfolding i_def using pixel_index_bounds by blast+
      then have n: "nat i < w * h" by linarith
      then have "nat i * 4 + 0 < length g" using len by simp
      with i(1) have "rd g (i * 4 + int 0) = Some (num (g ! (nat i * 4 + 0)))"
        by (rule rd_pixel)
      then show ?thesis using const [OF n] by (simp add: i_def)
    qed
    have "sobelSums g w x y = (Some 0, Some 0)"
      by (rule sobelSums_constant [where v = v]) (rule rdv)
    then have "sobelPixel g w y x r'' ! k = (if k mod 4 = 3 then 255 else 0)"
      using sobelPixel_value [of k y w x r'' g] kp kr'
      by (simp add: pix_def store_def sqrtN_def addN_def mulN_def fl_0 flSqrt_def toUint8Clamp_def)
    then have "conv ! k = (if k mod 4 = 3 then 255 else 0)"
      using r''(2) kp by (simp add: conv_def G1_def)
    then show ?thesis unfolding out using True by (simp only: if_True simp_thms if_cancel)
  qed
  then show "sobelData g w h ! k = concat (replicate (w * h) [0, 0, 0, 255]) ! k"
    using black_pixel_nth [OF k] by simp
qed

text \<open>
  C8. On an image whose pixels all have the same colour, \<open>applySobelEdgeDetection\<close>
  returns the image whose pixels are all \<open>(0, 0, 0, 255)\<close>: magnitude zero in the
  interior, the forced black border on the four edges.
\<close>

theorem sobel_constant_image:
  assumes "data imageData = concat (replicate (width imageData * height imageData) [r, g, b, a])"
    and "0 < width imageData" and "0 < height imageData"
  shows "applySobelEdgeDetection imageData =
           Inr \<lparr>width = width imageData, height = height imageData,
                data = concat (replicate (width imageData * height imageData) [0, 0, 0, 255])\<rparr>"
proof -
  define w where "w = width imageData"
  define h where "h = height imageData"
  define gd where "gd = grayscaleLoop 0 (data imageData)"
  define v where "v = store (addN (addN (mulN (Some (num r)) (Some (fl (299 / 1000))))
      (mulN (Some (num g)) (Some (fl (587 / 1000))))) (mulN (Some (num b)) (Some (fl (114 / 1000)))))"
  have lg: "length gd = w * h * 4"
    by (simp add: gd_def grayscaleLoop_length assms(1) length_concat_replicate4 w_def h_def)
  have gray: "applyGrayscale imageData = Inr \<lparr>width = w, height = h, data = gd\<rparr>"
    unfolding applyGrayscale_def gd_def [symmetric] w_def [symmetric] h_def [symmetric]
    using lg by (intro newImageData_ok) (simp_all add: w_def h_def)
  have const: "gd ! (q * 4) = v" if "q < w * h" for q
    unfolding gd_def assms(1) v_def w_def [symmetric] h_def [symmetric]
    using that by (rule grayscale_constant)
  have sd: "sobelData gd w h = concat (replicate (w * h) [0, 0, 0, 255])"
    using lg assms(2,3) const by (intro sobelData_constant) (simp_all add: w_def h_def)
  have "length (concat (replicate (w * h) [0, 0, 0, 255 :: byte])) = w * h * 4"
    by (simp add: length_concat_replicate4)
  then have "newImageData (concat (replicate (w * h) [0, 0, 0, 255])) w h
      = Inr \<lparr>width = w, height = h, data = concat (replicate (w * h) [0, 0, 0, 255])\<rparr>"
    by (intro newImageData_ok) (simp_all add: w_def h_def)
  then show ?thesis
    unfolding applySobelEdgeDetection_def gray
    by (simp add: sd w_def [symmetric] h_def [symmetric])
qed

section \<open>Evaluations on concrete images\<close>

text \<open>
  C1. The spec takes \<open>applyContrast(_, 100)\<close> to be the identity on the 2x2 image whose
  pixels are all \<open>(100,100,100,255)\<close>. The code's factor at 100 is
  \<open>259 * 355 / (255 * 159)\<close>, about 2.27, and every colour byte becomes 65.
\<close>

theorem applyContrast_100_not_identity:
  "applyContrast \<lparr>width = 2, height = 2,
       data = [100, 100, 100, 255, 100, 100, 100, 255, 100, 100, 100, 255, 100, 100, 100, 255]\<rparr> 100
   = Inr \<lparr>width = 2, height = 2,
       data = [65, 65, 65, 255, 65, 65, 65, 255, 65, 65, 65, 255, 65, 65, 65, 255]\<rparr>"
  by code_simp


theorem unknown_type_passthrough_witness:
  "type \<lparr>type = ''sepia'', params = defaultParams\<rparr>
     \<notin> {''contrast'', ''brightness'', ''sharpening'', ''threshold'', ''grayscale'',
         ''edges'', ''canny'', ''segmentation''}
   \<and> applyTransformation (\<lambda>i. 0) sample3x3 \<lparr>type = ''sepia'', params = defaultParams\<rparr>
       = Some (Inr sample3x3)"
  using unknown_type_passthrough
    [of "\<lparr>type = ''sepia'', params = defaultParams\<rparr>" "\<lambda>i. 0" sample3x3]
  by simp

theorem applyGrayscale_idempotent_witness:
  "applyGrayscale sample3x3
     = Inr \<lparr>width = 3, height = 3,
        data = [18, 18, 18, 255, 124, 124, 124, 128, 28, 28, 28, 7,
                82, 82, 82, 60, 128, 128, 128, 99, 255, 255, 255, 0,
                149, 149, 149, 1, 60, 60, 60, 200, 40, 40, 40, 8]\<rparr>
   \<and> (case applyGrayscale sample3x3 of Inl e \<Rightarrow> Inl e | Inr y \<Rightarrow> applyGrayscale y)
     = applyGrayscale sample3x3"
proof -
  have a: "applyGrayscale sample3x3
     = Inr \<lparr>width = 3, height = 3,
        data = [18, 18, 18, 255, 124, 124, 124, 128, 28, 28, 28, 7,
                82, 82, 82, 60, 128, 128, 128, 99, 255, 255, 255, 0,
                149, 149, 149, 1, 60, 60, 60, 200, 40, 40, 40, 8]\<rparr>"
    by code_simp
  from a applyGrayscale_idempotent [of sample3x3] show ?thesis
    by (rule conjI)
qed

theorem applyThreshold_binary_witness:
  "applyThreshold sample3x3 128
     = Inr \<lparr>width = 3, height = 3,
        data = [0, 0, 0, 255, 0, 0, 0, 128, 0, 0, 0, 7,
                0, 0, 0, 60, 255, 255, 255, 99, 255, 255, 255, 0,
                255, 255, 255, 1, 0, 0, 0, 200, 0, 0, 0, 8]\<rparr>
   \<and> data \<lparr>width = 3, height = 3,
        data = [0, 0, 0, 255, 0, 0, 0, 128, 0, 0, 0, 7,
                0, 0, 0, 60, 255, 255, 255, 99, 255, 255, 255, 0,
                255, 255, 255, 1, 0, 0, 0, 200, 0, 0, 0, 8]\<rparr> ! 19 = data sample3x3 ! 19
   \<and> (data \<lparr>width = 3, height = 3,
        data = [0, 0, 0, 255, 0, 0, 0, 128, 0, 0, 0, 7,
                0, 0, 0, 60, 255, 255, 255, 99, 255, 255, 255, 0,
                255, 255, 255, 1, 0, 0, 0, 200, 0, 0, 0, 8]\<rparr> ! 16 = 0
      \<or> data \<lparr>width = 3, height = 3,
        data = [0, 0, 0, 255, 0, 0, 0, 128, 0, 0, 0, 7,
                0, 0, 0, 60, 255, 255, 255, 99, 255, 255, 255, 0,
                255, 255, 255, 1, 0, 0, 0, 200, 0, 0, 0, 8]\<rparr> ! 16 = 255)"
proof -
  have a: "applyThreshold sample3x3 128
     = Inr \<lparr>width = 3, height = 3,
        data = [0, 0, 0, 255, 0, 0, 0, 128, 0, 0, 0, 7,
                0, 0, 0, 60, 255, 255, 255, 99, 255, 255, 255, 0,
                255, 255, 255, 1, 0, 0, 0, 200, 0, 0, 0, 8]\<rparr>"
    by code_simp
  note b = applyThreshold_binary [OF a, THEN conjunct2, rule_format]
  have l: "19 < length (data sample3x3)" "16 < length (data sample3x3)"
    by (simp_all add: sample3x3_def)
  have m: "(19 :: nat) mod 4 = 3" "(16 :: nat) mod 4 \<noteq> 3"
    by simp_all
  from b [OF l(1)] m(1) have c: "data \<lparr>width = 3, height = 3,
        data = [0, 0, 0, 255, 0, 0, 0, 128, 0, 0, 0, 7,
                0, 0, 0, 60, 255, 255, 255, 99, 255, 255, 255, 0,
                255, 255, 255, 1, 0, 0, 0, 200, 0, 0, 0, 8]\<rparr> ! 19 = data sample3x3 ! 19"
    by (simp only: if_True)
  from b [OF l(2)] m(2) have d: "data \<lparr>width = 3, height = 3,
        data = [0, 0, 0, 255, 0, 0, 0, 128, 0, 0, 0, 7,
                0, 0, 0, 60, 255, 255, 255, 99, 255, 255, 255, 0,
                255, 255, 255, 1, 0, 0, 0, 200, 0, 0, 0, 8]\<rparr> ! 16 = 0
      \<or> data \<lparr>width = 3, height = 3,
        data = [0, 0, 0, 255, 0, 0, 0, 128, 0, 0, 0, 7,
                0, 0, 0, 60, 255, 255, 255, 99, 255, 255, 255, 0,
                255, 255, 255, 1, 0, 0, 0, 200, 0, 0, 0, 8]\<rparr> ! 16 = 255"
    by (simp only: if_False)
  from a c d show ?thesis by blast
qed

theorem alpha_unchanged_witness:
  "((19 :: nat) mod 4 = 3
    \<and> applySharpen sample3x3 5
       = Inr \<lparr>width = 3, height = 3,
          data = [10, 20, 30, 255, 200, 100, 50, 128, 0, 0, 250, 7,
                  90, 80, 70, 60, 71, 140, 183, 99, 255, 255, 255, 0,
                  5, 250, 5, 1, 33, 66, 99, 200, 64, 32, 16, 8]\<rparr>)
   \<and> (length (data \<lparr>width = 3, height = 3,
          data = [10, 20, 30, 255, 200, 100, 50, 128, 0, 0, 250, 7,
                  90, 80, 70, 60, 71, 140, 183, 99, 255, 255, 255, 0,
                  5, 250, 5, 1, 33, 66, 99, 200, 64, 32, 16, 8]\<rparr>) = length (data sample3x3)
      \<and> data \<lparr>width = 3, height = 3,
          data = [10, 20, 30, 255, 200, 100, 50, 128, 0, 0, 250, 7,
                  90, 80, 70, 60, 71, 140, 183, 99, 255, 255, 255, 0,
                  5, 250, 5, 1, 33, 66, 99, 200, 64, 32, 16, 8]\<rparr> ! 19
        = data sample3x3 ! 19)"
proof -
  have a: "applySharpen sample3x3 5
       = Inr \<lparr>width = 3, height = 3,
          data = [10, 20, 30, 255, 200, 100, 50, 128, 0, 0, 250, 7,
                  90, 80, 70, 60, 71, 140, 183, 99, 255, 255, 255, 0,
                  5, 250, 5, 1, 33, 66, 99, 200, 64, 32, 16, 8]\<rparr>"
    by code_simp
  have k: "(19 :: nat) mod 4 = 3" by simp
  from alpha_unchanged [OF k, of sample3x3 5] a
  have "length (data \<lparr>width = 3, height = 3,
          data = [10, 20, 30, 255, 200, 100, 50, 128, 0, 0, 250, 7,
                  90, 80, 70, 60, 71, 140, 183, 99, 255, 255, 255, 0,
                  5, 250, 5, 1, 33, 66, 99, 200, 64, 32, 16, 8]\<rparr>) = length (data sample3x3)
      \<and> data \<lparr>width = 3, height = 3,
          data = [10, 20, 30, 255, 200, 100, 50, 128, 0, 0, 250, 7,
                  90, 80, 70, 60, 71, 140, 183, 99, 255, 255, 255, 0,
                  5, 250, 5, 1, 33, 66, 99, 200, 64, 32, 16, 8]\<rparr> ! 19
        = data sample3x3 ! 19"
    by blast
  with k a show ?thesis by blast
qed

theorem sobel_constant_image_witness:
  "data \<lparr>width = 3, height = 3, data = concat (replicate (3 * 3) [10, 20, 30, 40])\<rparr>
     = concat (replicate (3 * 3) [10, 20, 30, 40])
   \<and> (0 :: nat) < 3
   \<and> applySobelEdgeDetection \<lparr>width = 3, height = 3, data = concat (replicate (3 * 3) [10, 20, 30, 40])\<rparr>
     = Inr \<lparr>width = 3, height = 3, data = concat (replicate (3 * 3) [0, 0, 0, 255])\<rparr>"
  using sobel_constant_image
    [of "\<lparr>width = 3, height = 3, data = concat (replicate (3 * 3) [10, 20, 30, 40])\<rparr>" 10 20 30 40]
  by simp

end
